theory Spec2Isabelle
  imports Complex_Main
begin

unbundle bit_operations_syntax

section \<open>JavaScript values used by the pipeline\<close>

text \<open>
  Strings are \<open>string\<close> (a list of characters); a bit string is a string over the
  characters 0 and 1. JavaScript numbers are taken as exact mathematical numbers
  (\<open>int\<close> for counts and indices, \<open>real\<close> for coordinates and percentages), with the
  special values the code can produce written out.
\<close>

datatype number = Num real | NaN | PosInfinity | NegInfinity

definition isBit :: "char \<Rightarrow> bool" where
  "isBit c = (c = CHR ''0'' \<or> c = CHR ''1'')"

definition isBitString :: "string \<Rightarrow> bool" where
  "isBitString s = list_all isBit s"

definition digitChar :: "nat \<Rightarrow> char" where
  "digitChar d = ''0123456789'' ! d"

text \<open>The digits of a natural number in radix \<open>r\<close>, most significant first. The code
  uses the radices 2 and 10; a radix below 2 is a \<open>RangeError\<close> in the language and one
  above 10 needs letters, and neither occurs.\<close>

function digits :: "nat \<Rightarrow> nat \<Rightarrow> string" where
  "digits r n = (if r < 2 \<or> n < r then [digitChar n] else digits r (n div r) @ [digitChar (n mod r)])"
  by pat_completeness auto
termination
  by (relation "measure (\<lambda>(r, n). n)") auto

declare digits.simps [simp del]

text \<open>\<open>Number.prototype.toString(radix)\<close> on an integer: a minus sign, then the digits.
  In a template literal the language prints an integer from \<open>1e21\<close> on in exponent
  notation; the counts printed there are taken to be below that.\<close>

definition toString :: "int \<Rightarrow> nat \<Rightarrow> string" where
  "toString n r = (if n < 0 then CHR ''-'' # digits r (nat (- n)) else digits r (nat n))"

text \<open>\<open>String.prototype.padStart\<close> and \<open>padEnd\<close> with a one-character filler, and
  \<open>slice\<close> for indices \<open>0 \<le> i \<le> j\<close>.\<close>

definition padStart :: "string \<Rightarrow> nat \<Rightarrow> char \<Rightarrow> string" where
  "padStart s n c = replicate (n - length s) c @ s"

definition padEnd :: "string \<Rightarrow> nat \<Rightarrow> char \<Rightarrow> string" where
  "padEnd s n c = s @ replicate (n - length s) c"

definition slice :: "string \<Rightarrow> nat \<Rightarrow> nat \<Rightarrow> string" where
  "slice s i j = take (j - i) (drop i s)"

text \<open>The remainder operator \<open>%\<close>: the result has the sign of the dividend. A zero
  divisor gives \<open>NaN\<close> in the language; the code takes remainders by the length of the
  key only where the key is not empty.\<close>

definition js_rem :: "int \<Rightarrow> int \<Rightarrow> int" where
  "js_rem a b = (if a < 0 then - ((- a) mod \<bar>b\<bar>) else a mod \<bar>b\<bar>)"

text \<open>\<open>s[i]\<close>: the character at an index, \<open>undefined\<close> (here \<open>None\<close>) outside the string.\<close>

definition charAt :: "string \<Rightarrow> int \<Rightarrow> char option" where
  "charAt s i = (if 0 \<le> i \<and> i < int (length s) then Some (s ! nat i) else None)"

text \<open>\<open>parseInt\<close> of a one-character string or of \<open>undefined\<close>, radix 10: the digit's value,
  and \<open>NaN\<close> (here \<open>None\<close>) for anything else.\<close>

definition parseIntChar :: "char option \<Rightarrow> nat option" where
  "parseIntChar c = (case c of None \<Rightarrow> None
     | Some ch \<Rightarrow> (if ch \<in> set ''0123456789'' then Some (of_char ch - 48) else None))"

text \<open>The operator \<open>^\<close>: both operands go through ToInt32, which sends \<open>NaN\<close> to 0.\<close>

definition toInt32 :: "nat option \<Rightarrow> nat" where
  "toInt32 v = (case v of None \<Rightarrow> 0 | Some n \<Rightarrow> n)"

definition js_xor :: "nat option \<Rightarrow> nat option \<Rightarrow> nat" where
  "js_xor a b = toInt32 a XOR toInt32 b"

section \<open>OneTimePad\<close>

text \<open>
  \<^verbatim>\<open>
  const oneTimePadEncrypt = (chunk, key, keyOffset = 0) => {
    if (!key || !chunk) return chunk;
    let encrypted = '';
    for (let i = 0; i < chunk.length; i++) {
      const keyBit = key[(keyOffset + i) % key.length];
      encrypted += (parseInt(chunk[i]) ^ parseInt(keyBit)).toString();
    }
    return encrypted;
  };
  \<close>
  The loop is \<open>otpLoop\<close>, with the loop variable and the accumulator as arguments.
  \<open>oneTimePadDecrypt\<close> has the same body in the source.
\<close>

definition otpStep :: "string \<Rightarrow> string \<Rightarrow> int \<Rightarrow> nat \<Rightarrow> string" where
  "otpStep chunk key keyOffset i =
     (let keyBit = charAt key (js_rem (keyOffset + int i) (int (length key)))
      in toString (int (js_xor (parseIntChar (charAt chunk (int i))) (parseIntChar keyBit))) 10)"

function otpLoop :: "string \<Rightarrow> string \<Rightarrow> int \<Rightarrow> nat \<Rightarrow> string \<Rightarrow> string" where
  "otpLoop chunk key keyOffset i encrypted =
     (if i < length chunk
      then otpLoop chunk key keyOffset (Suc i) (encrypted @ otpStep chunk key keyOffset i)
      else encrypted)"
  by pat_completeness auto
termination
  by (relation "measure (\<lambda>(chunk, key, keyOffset, i, encrypted). length chunk - i)") auto

declare otpLoop.simps [simp del]

definition oneTimePadEncrypt :: "string \<Rightarrow> string \<Rightarrow> int \<Rightarrow> string" where
  "oneTimePadEncrypt chunk key keyOffset =
     (if key = [] \<or> chunk = [] then chunk else otpLoop chunk key keyOffset 0 [])"

definition oneTimePadDecrypt :: "string \<Rightarrow> string \<Rightarrow> int \<Rightarrow> string" where
  "oneTimePadDecrypt encryptedChunk key keyOffset =
     (if key = [] \<or> encryptedChunk = [] then encryptedChunk
      else otpLoop encryptedChunk key keyOffset 0 [])"

section \<open>BinaryCodec\<close>

text \<open>\<open>Math.round\<close>: the nearest integer, a tie going up.\<close>

definition Math_round :: "real \<Rightarrow> int" where
  "Math_round x = \<lfloor>x + 1 / 2\<rfloor>"

text \<open>
  \<^verbatim>\<open>
  const floatToBinary = (value, bits = 32) => {
    const intVal = Math.round((value + 180) * 100000);
    let bin = intVal.toString(2);
    return bin.padStart(bits, '0');
  };
  \<close>
  The arithmetic is that of exact numbers. It is the arithmetic of the code, up to the
  rounding of the last unit, as long as the scaled integer is at most \<open>2^53\<close> in
  magnitude, the range in which a double holds every integer. Beyond it a double loses
  digits, and past the largest double the product is \<open>Infinity\<close>, printed as such; the
  statements about \<open>floatToBinary\<close> below stay inside that range.
\<close>

definition floatToBinary :: "real \<Rightarrow> nat \<Rightarrow> string" where
  "floatToBinary val bits =
     (let intVal = Math_round ((val + 180) * 100000);
          bin = toString intVal 2
      in padStart bin bits CHR ''0'')"

text \<open>
  \<open>parseInt(s, 2)\<close>: leading white space is skipped, a sign is read, then the longest
  run of binary digits; \<open>NaN\<close> when that run is empty. The white space is the ASCII part
  of the language's set.
\<close>

definition isWhiteSpace :: "char \<Rightarrow> bool" where
  "isWhiteSpace c = (c \<in> set [CHR 0x09, CHR 0x0A, CHR 0x0B, CHR 0x0C, CHR 0x0D, CHR 0x20])"

definition bitsValue :: "string \<Rightarrow> nat" where
  "bitsValue z = foldl (\<lambda>a c. 2 * a + (if c = CHR ''1'' then 1 else 0)) 0 z"

definition parseInt2 :: "string \<Rightarrow> number" where
  "parseInt2 s =
     (let t = dropWhile isWhiteSpace s;
          neg = (t \<noteq> [] \<and> hd t = CHR ''-'');
          u = (if t \<noteq> [] \<and> (hd t = CHR ''-'' \<or> hd t = CHR ''+'') then tl t else t);
          z = takeWhile isBit u
      in if z = [] then NaN
         else Num (if neg then - real (bitsValue z) else real (bitsValue z)))"

text \<open>
  \<^verbatim>\<open>
  const binaryToFloat = (bin, bits = 32) => {
    if (!bin) return null;
    const intVal = parseInt(bin, 2);
    return intVal / 100000 - 180;
  };
  \<close>
  \<open>None\<close> is \<open>null\<close>.
\<close>

definition binaryToFloat :: "string \<Rightarrow> number option" where
  "binaryToFloat bin =
     (if bin = [] then None
      else Some (case parseInt2 bin of Num intVal \<Rightarrow> Num (intVal / 100000 - 180) | _ \<Rightarrow> NaN))"

record coordinates =
  lat :: "number option"
  lon :: "number option"
  restricted :: "string option"

text \<open>
  \<^verbatim>\<open>
  const binaryToLatLon = (binary) => {
    if (!binary || binary.length < 1) return { lat: null, lon: null, restricted: null };
    const restrictedBit = binary.length >= 65 ? binary[64] : '0';
    const restricted = restrictedBit === '1' ? 'Yes' : 'No';
    if (binary.length < 65) return { lat: null, lon: null, restricted };
    const latBin = binary.slice(0, 32);
    const lonBin = binary.slice(32, 64);
    return { lat: binaryToFloat(latBin), lon: binaryToFloat(lonBin), restricted };
  };
  \<close>
\<close>

definition binaryToLatLon :: "string \<Rightarrow> coordinates" where
  "binaryToLatLon binary =
     (if binary = [] then \<lparr>lat = None, lon = None, restricted = None\<rparr>
      else
        let restrictedBit = (if length binary \<ge> 65 then binary ! 64 else CHR ''0'');
            restricted = (if restrictedBit = CHR ''1'' then ''Yes'' else ''No'')
        in if length binary < 65 then \<lparr>lat = None, lon = None, restricted = Some restricted\<rparr>
           else
             let latBin = slice binary 0 32;
                 lonBin = slice binary 32 64
             in \<lparr>lat = binaryToFloat latBin, lon = binaryToFloat lonBin,
                 restricted = Some restricted\<rparr>)"

text \<open>
  The record encoding of \<open>handleRunFullSimulation\<close>:
  \<^verbatim>\<open>
  const latBin = predictedLat !== null ? floatToBinary(predictedLat) : ''.padStart(32, '0');
  const lonBin = predictedLon !== null ? floatToBinary(predictedLon) : ''.padStart(32, '0');
  const restrictedBin = predictedRestricted === "Yes" ? "1" : "0";
  const combinedBin = latBin + lonBin + restrictedBin;
  \<close>
\<close>

definition combinedBin :: "real option \<Rightarrow> real option \<Rightarrow> string option \<Rightarrow> string" where
  "combinedBin predictedLat predictedLon predictedRestricted =
     (let latBin = (case predictedLat of Some v \<Rightarrow> floatToBinary v 32
                      | None \<Rightarrow> padStart [] 32 CHR ''0'');
          lonBin = (case predictedLon of Some v \<Rightarrow> floatToBinary v 32
                      | None \<Rightarrow> padStart [] 32 CHR ''0'');
          restrictedBin = (if predictedRestricted = Some ''Yes'' then ''1'' else ''0'')
      in latBin @ lonBin @ restrictedBin)"

section \<open>ChunkTransmitter\<close>

text \<open>
  \<^verbatim>\<open>
  const chunks = [];
  for (let i = 0; i < binaryData.length; i += 2) {
    const chunk = binaryData.slice(i, i + 2).padEnd(2, '0');
    chunks.push(chunk);
  }
  const encryptedChunks = chunks.map((ch, idx) => {
    const keyOffset = (idx * 2) % qkdKey.length;
    return oneTimePadEncrypt(ch, qkdKey, keyOffset);
  });
  \<close>
  Both run only behind the guard \<open>if (!binaryData || !qkdKey) return null\<close>, so the key
  is not empty where the remainder is taken.
\<close>

function chunksLoop :: "string \<Rightarrow> nat \<Rightarrow> string list \<Rightarrow> string list" where
  "chunksLoop binaryData i chunks =
     (if i < length binaryData
      then chunksLoop binaryData (i + 2) (chunks @ [padEnd (slice binaryData i (i + 2)) 2 CHR ''0''])
      else chunks)"
  by pat_completeness auto
termination
  by (relation "measure (\<lambda>(binaryData, i, chunks). length binaryData - i)") auto

declare chunksLoop.simps [simp del]

definition chunksOf :: "string \<Rightarrow> string list" where
  "chunksOf binaryData = chunksLoop binaryData 0 []"

definition chunkKeyOffset :: "nat \<Rightarrow> string \<Rightarrow> int" where
  "chunkKeyOffset idx qkdKey = js_rem (int idx * 2) (int (length qkdKey))"

definition encryptedChunksOf :: "string list \<Rightarrow> string \<Rightarrow> string list" where
  "encryptedChunksOf chunks qkdKey =
     map (\<lambda>(idx, ch). oneTimePadEncrypt ch qkdKey (chunkKeyOffset idx qkdKey)) (enumerate 0 chunks)"

text \<open>
  One item of the backend's \<open>corrected_messages\<close>; a missing field is \<open>None\<close>. In the
  array, \<open>None\<close> is an entry that is \<open>null\<close>.
\<close>

record backendItem =
  corrected_message :: "string option"
  item_fidelity :: "real option"

record transmissionResult =
  index :: nat
  originalChunk :: string
  encryptedChunk :: string
  receivedChunk :: string
  status :: string
  fidelity :: real
  keyOffset :: int

text \<open>
  \<^verbatim>\<open>
  const transmissionResults = encryptedChunks.map((encryptedChunk, idx) => {
    const originalChunk = chunks[idx] || '00';
    const keyOffset = (idx * 2) % qkdKey.length;
    const backendItem = correctedMessages[idx] || {};
    const receivedChunk = backendItem.corrected_message ?? encryptedChunk;
    const fidelity = backendItem.fidelity ?? 0;
    const status = fidelity >= 50 ? 'OK' : 'Failed';
    return { index: idx, originalChunk, encryptedChunk, receivedChunk, status, fidelity, keyOffset };
  });
  \<close>
\<close>

definition itemAt :: "backendItem option list \<Rightarrow> nat \<Rightarrow> backendItem" where
  "itemAt correctedMessages idx =
     (if idx < length correctedMessages
      then (case correctedMessages ! idx of Some b \<Rightarrow> b
              | None \<Rightarrow> \<lparr>corrected_message = None, item_fidelity = None\<rparr>)
      else \<lparr>corrected_message = None, item_fidelity = None\<rparr>)"

definition transmissionResultAt ::
  "string list \<Rightarrow> string \<Rightarrow> backendItem option list \<Rightarrow> nat \<Rightarrow> string \<Rightarrow> transmissionResult" where
  "transmissionResultAt chunks qkdKey correctedMessages idx encChunk =
     (let origChunk = (if idx < length chunks \<and> chunks ! idx \<noteq> [] then chunks ! idx else ''00'');
          kOffset = chunkKeyOffset idx qkdKey;
          backendItem = itemAt correctedMessages idx;
          recvChunk = (case corrected_message backendItem of Some m \<Rightarrow> m | None \<Rightarrow> encChunk);
          fid = (case item_fidelity backendItem of Some f \<Rightarrow> f | None \<Rightarrow> 0);
          stat = (if fid \<ge> 50 then ''OK'' else ''Failed'')
      in \<lparr>index = idx, originalChunk = origChunk, encryptedChunk = encChunk,
          receivedChunk = recvChunk, status = stat, fidelity = fid, keyOffset = kOffset\<rparr>)"

definition transmissionResultsOf ::
  "string list \<Rightarrow> string list \<Rightarrow> string \<Rightarrow> backendItem option list \<Rightarrow> transmissionResult list" where
  "transmissionResultsOf chunks encChunks qkdKey correctedMessages =
     map (\<lambda>(idx, encChunk). transmissionResultAt chunks qkdKey correctedMessages idx encChunk)
       (enumerate 0 encChunks)"

text \<open>
  The batch request and the failover loop of \<open>processSuperdenseCoding\<close>. The network is
  a parameter: \<open>fetch\<close> takes the state of the world and a request and gives what the
  attempt produced and the next state of the world. An attempt either throws inside the
  \<open>try\<close> block (the request is rejected, it is aborted by the timeout of 90 seconds, or
  the body does not parse or is not an object), or answers with a status that is not ok
  (\<open>NotOk\<close> with the \<open>message\<close> of the error body if it has one, the status and the
  status text), or answers ok with a body.
\<close>

record config =
  baseURL :: string
  compareCorrected :: string
  fallbackURLs :: "string list"

record request =
  url :: string
  bits :: "string list"
  shots :: int
  p_error :: real

record response =
  corrected_messages :: "backendItem option list option"
  fidelities_shor :: "real list option"
  fidelities_noisy :: "real list option"
  fidelities_ideal :: "real list option"
  fidelity_graph :: "string option"

datatype attempt =
    Threw string
  | NotOk "string option" nat string
  | Ok response

record sdcResults =
  originalChunks :: "string list"
  encryptedChunks :: "string list"
  transmissionResults :: "transmissionResult list"
  totalChunks :: nat
  successfulTransmissions :: nat
  res_fidelities_shor :: "real list"
  res_fidelities_noisy :: "real list"
  res_fidelities_ideal :: "real list"
  res_fidelity_graph :: "string option"

text \<open>\<open>Array.prototype.join\<close>.\<close>

fun join :: "string list \<Rightarrow> string \<Rightarrow> string" where
  "join [] sep = []"
| "join [x] sep = x"
| "join (x # y # ys) sep = x @ sep @ join (y # ys) sep"

text \<open>
  \<^verbatim>\<open>
  const urlsToTry = [
    `${config.errorCorrection.baseURL}${config.errorCorrection.endpoints.compareCorrected}`,
    ...config.errorCorrection.fallbackURLs.map(url =>
         `${url}${config.errorCorrection.endpoints.compareCorrected}`)
  ];
  \<close>
\<close>

definition urlsToTry :: "config \<Rightarrow> string list" where
  "urlsToTry cfg =
     (baseURL cfg @ compareCorrected cfg) # map (\<lambda>u. u @ compareCorrected cfg) (fallbackURLs cfg)"

text \<open>The value returned from inside the loop when an attempt answers ok.\<close>

definition orEmpty :: "'a list option \<Rightarrow> 'a list" where
  "orEmpty v = (case v of Some xs \<Rightarrow> xs | None \<Rightarrow> [])"

definition buildResults :: "string list \<Rightarrow> string list \<Rightarrow> string \<Rightarrow> response \<Rightarrow> sdcResults" where
  "buildResults chunks encChunks qkdKey data =
     (let correctedMessages = orEmpty (corrected_messages data);
          results = transmissionResultsOf chunks encChunks qkdKey correctedMessages
      in \<lparr>originalChunks = chunks, encryptedChunks = encChunks, transmissionResults = results,
          totalChunks = length chunks,
          successfulTransmissions = length (filter (\<lambda>r. status r = ''OK'') results),
          res_fidelities_shor = orEmpty (fidelities_shor data),
          res_fidelities_noisy = orEmpty (fidelities_noisy data),
          res_fidelities_ideal = orEmpty (fidelities_ideal data),
          res_fidelity_graph =
            (case fidelity_graph data of Some g \<Rightarrow> (if g \<noteq> [] then Some g else None)
             | None \<Rightarrow> None)\<rparr>)"

text \<open>
  The message of the error that an attempt leaves in \<open>lastError\<close>:
  \<^verbatim>\<open>
  if (!response.ok) {
    const errorData = await response.json().catch(() => ({}));
    throw new Error(errorData.message ||
      `Backend error (${url}): ${response.status} ${response.statusText}`);
  }
  \<close>
\<close>

definition backendError :: "string \<Rightarrow> string option \<Rightarrow> nat \<Rightarrow> string \<Rightarrow> string" where
  "backendError u msg st statusText =
     (case msg of
        Some m \<Rightarrow> (if m \<noteq> [] then m
                   else ''Backend error ('' @ u @ ''): '' @ toString (int st) 10 @ '' '' @ statusText)
      | None \<Rightarrow> ''Backend error ('' @ u @ ''): '' @ toString (int st) 10 @ '' '' @ statusText)"

text \<open>
  \<^verbatim>\<open>
  let lastError = null;
  for (const url of urlsToTry) {
    try {
      console.log(`Trying to connect to: ${url}`);
      ... const response = await fetch(url, {...}) ...
      if (!response.ok) { ... throw ... }
      const data = await response.json();
      ...
      return { ... };
    } catch (err) {
      lastError = err;
      continue;
    }
  }
  \<close>
  The loop returns the value of the \<open>return\<close> (\<open>Inr\<close>), or \<open>lastError\<close> when the list is
  exhausted (\<open>Inl\<close>); with it the list of the urls tried, in the order of the attempts
  (what \<open>console.log\<close> prints), and the state of the world.
\<close>

fun sendLoop ::
  "('w \<Rightarrow> request \<Rightarrow> attempt \<times> 'w) \<Rightarrow> string list \<Rightarrow> string list \<Rightarrow> string \<Rightarrow> real \<Rightarrow> int
     \<Rightarrow> string list \<Rightarrow> string option \<Rightarrow> string list \<Rightarrow> 'w
     \<Rightarrow> (string option + sdcResults) \<times> string list \<times> 'w" where
  "sendLoop fetch chunks encChunks qkdKey perr nshots [] lastError tried w =
     (Inl lastError, tried, w)"
| "sendLoop fetch chunks encChunks qkdKey perr nshots (u # urls) lastError tried w =
     (case fetch w \<lparr>url = u, bits = encChunks, shots = nshots, p_error = perr\<rparr> of
        (Ok data, w') \<Rightarrow> (Inr (buildResults chunks encChunks qkdKey data), tried @ [u], w')
      | (Threw msg, w') \<Rightarrow>
          sendLoop fetch chunks encChunks qkdKey perr nshots urls (Some msg) (tried @ [u]) w'
      | (NotOk msg st statusText, w') \<Rightarrow>
          sendLoop fetch chunks encChunks qkdKey perr nshots urls
            (Some (backendError u msg st statusText)) (tried @ [u]) w')"

text \<open>
  \<^verbatim>\<open>
  throw new Error(
    `Failed to connect to any error correction service. ` +
    `Tried: ${urlsToTry.join(', ')}. ` +
    `Last error: ${lastError?.message || 'Unknown error'}`);
  \<close>
\<close>

definition failureMessage :: "string list \<Rightarrow> string option \<Rightarrow> string" where
  "failureMessage urls lastError =
     ''Failed to connect to any error correction service. '' @
     ''Tried: '' @ join urls '', '' @ ''. '' @
     ''Last error: '' @
       (case lastError of Some m \<Rightarrow> (if m \<noteq> [] then m else ''Unknown error'')
        | None \<Rightarrow> ''Unknown error'')"

text \<open>
  \<open>processSuperdenseCoding\<close>: \<open>Inr None\<close> is the \<open>null\<close> of the first guard, \<open>Inl\<close> the
  message of the error thrown at the end.
\<close>

definition processSuperdenseCoding ::
  "('w \<Rightarrow> request \<Rightarrow> attempt \<times> 'w) \<Rightarrow> config \<Rightarrow> string \<Rightarrow> string \<Rightarrow> real \<Rightarrow> int \<Rightarrow> 'w
     \<Rightarrow> (string + sdcResults option) \<times> string list \<times> 'w" where
  "processSuperdenseCoding fetch cfg binaryData qkdKey perr nshots w =
     (if binaryData = [] \<or> qkdKey = [] then (Inr None, [], w)
      else
        let chunks = chunksOf binaryData;
            encChunks = encryptedChunksOf chunks qkdKey
        in case sendLoop fetch chunks encChunks qkdKey perr nshots (urlsToTry cfg) None [] w of
             (Inr res, tried, w') \<Rightarrow> (Inr (Some res), tried, w')
           | (Inl lastError, tried, w') \<Rightarrow>
               (Inl (failureMessage (urlsToTry cfg) lastError), tried, w'))"

section \<open>MessageReconstructor\<close>

text \<open>
  \<^verbatim>\<open>
  const reconstructBinaryData = (sdcResults, qkdKey) => {
    if (!sdcResults || !sdcResults.transmissionResults || !qkdKey) return '';
    const decryptedBinary = sdcResults.transmissionResults.map((result, idx) => {
      if (result.status === 'OK') {
        const receivedEncryptedChunk = result.receivedChunk;
        const decryptedChunk = oneTimePadDecrypt(receivedEncryptedChunk, qkdKey, result.keyOffset);
        return decryptedChunk;
      } else {
        return result.originalChunk || '00';
      }
    }).join('');
    return decryptedBinary;
  };
  \<close>
\<close>

definition reconstructChunk :: "string \<Rightarrow> transmissionResult \<Rightarrow> string" where
  "reconstructChunk qkdKey result =
     (if status result = ''OK''
      then oneTimePadDecrypt (receivedChunk result) qkdKey (keyOffset result)
      else (if originalChunk result \<noteq> [] then originalChunk result else ''00''))"

definition reconstructBinaryData :: "sdcResults option \<Rightarrow> string \<Rightarrow> string" where
  "reconstructBinaryData sdcRes qkdKey =
     (case sdcRes of
        None \<Rightarrow> []
      | Some res \<Rightarrow>
          (if qkdKey = [] then []
           else join (map (reconstructChunk qkdKey) (transmissionResults res)) []))"

section \<open>JobStreamConsumer\<close>

text \<open>
  The component \<open>Receiver\<close>. Its state is the React state of the component and whether
  the event source is open. A log entry made by a progress event carries a \<open>job_id\<close>;
  the others have none.
\<close>

record decoded =
  full_binary :: string
  latitude :: real
  longitude :: real
  restricted_status :: string

record logEntry =
  job_id :: "string option"
  log_type :: string
  message :: string

text \<open>
  The parsed event data: \<open>Progress job_id current_job total_jobs status message\<close>, where
  a missing \<open>status\<close> or \<open>message\<close> is \<open>None\<close>; \<open>Other\<close> is a \<open>type\<close> the handler does not
  know.
\<close>

datatype event =
    Start int
  | Progress string int int "string option" "string option"
  | Done decoded
  | Error string
  | Other

record receiver =
  decodedResult :: "decoded option"
  progressLogs :: "logEntry list"
  loading :: bool
  error :: "string option"
  progress :: number
  esOpen :: bool

text \<open>\<open>Array.prototype.findIndex\<close>: the first index where the test holds, else \<open>-1\<close>.\<close>

fun findIndexFrom :: "('a \<Rightarrow> bool) \<Rightarrow> 'a list \<Rightarrow> int \<Rightarrow> int" where
  "findIndexFrom P [] i = - 1"
| "findIndexFrom P (x # xs) i = (if P x then i else findIndexFrom P xs (i + 1))"

definition findIndex :: "('a \<Rightarrow> bool) \<Rightarrow> 'a list \<Rightarrow> int" where
  "findIndex P xs = findIndexFrom P xs 0"

text \<open>The division \<open>current_job / total_jobs\<close> times 100, with the values that a zero
  divisor gives.\<close>

definition percent :: "int \<Rightarrow> int \<Rightarrow> number" where
  "percent current_job total_jobs =
     (if total_jobs = 0
      then (if current_job = 0 then NaN else if current_job > 0 then PosInfinity else NegInfinity)
      else Num (real_of_int current_job / real_of_int total_jobs * 100))"

text \<open>
  \<^verbatim>\<open>
  const newLog = {
    job_id: data.job_id,
    type: data.status || 'progress',
    message: `[${data.current_job}/${data.total_jobs}] Job ${data.job_id.slice(0, 10)}...: ${data.message}`
  };
  \<close>
\<close>

definition newLog :: "string \<Rightarrow> int \<Rightarrow> int \<Rightarrow> string option \<Rightarrow> string option \<Rightarrow> logEntry" where
  "newLog jid current_job total_jobs stat msg =
     \<lparr>job_id = Some jid,
      log_type = (case stat of Some t \<Rightarrow> (if t \<noteq> [] then t else ''progress'') | None \<Rightarrow> ''progress''),
      message = ''['' @ toString current_job 10 @ ''/'' @ toString total_jobs 10 @ ''] Job '' @
                slice jid 0 10 @ ''...: '' @ (case msg of Some m \<Rightarrow> m | None \<Rightarrow> ''undefined'')\<rparr>"

text \<open>
  \<^verbatim>\<open>
  setProgressLogs(prev => {
    const existingLogIndex = prev.findIndex(log => log.job_id === data.job_id);
    const newLog = {...};
    if (existingLogIndex > -1) {
      const updatedLogs = [...prev];
      updatedLogs[existingLogIndex] = newLog;
      return updatedLogs;
    }
    return [...prev, newLog];
  });
  \<close>
\<close>

definition upsertLog :: "logEntry list \<Rightarrow> string \<Rightarrow> logEntry \<Rightarrow> logEntry list" where
  "upsertLog prev jid entry =
     (let existingLogIndex = findIndex (\<lambda>l. job_id l = Some jid) prev
      in if existingLogIndex > - 1 then prev[nat existingLogIndex := entry]
         else prev @ [entry])"

text \<open>The handler \<open>es.onmessage\<close>.\<close>

fun onmessage :: "receiver \<Rightarrow> event \<Rightarrow> receiver" where
  "onmessage s (Start total_jobs) =
     s\<lparr>progressLogs := progressLogs s @
         [\<lparr>job_id = None, log_type = ''info'',
           message = ''Found '' @ toString total_jobs 10 @ '' jobs to process.''\<rparr>]\<rparr>"
| "onmessage s (Progress jid current_job total_jobs stat msg) =
     s\<lparr>progress := percent current_job total_jobs,
       progressLogs := upsertLog (progressLogs s) jid (newLog jid current_job total_jobs stat msg)\<rparr>"
| "onmessage s (Done res) =
     s\<lparr>decodedResult := Some res, progress := Num 100,
       progressLogs := progressLogs s @
         [\<lparr>job_id = None, log_type = ''success'', message = ''All jobs processed successfully!''\<rparr>],
       esOpen := False, loading := False\<rparr>"
| "onmessage s (Error msg) =
     s\<lparr>error := Some msg,
       progressLogs := progressLogs s @
         [\<lparr>job_id = None, log_type = ''error'', message = ''ERROR: '' @ msg\<rparr>],
       esOpen := False, loading := False\<rparr>"
| "onmessage s Other = s"

text \<open>
  \<open>fetchDecodedJobs\<close> resets the state and opens the event source; \<open>es.onopen\<close> adds the
  first log entry.
\<close>

definition fetchDecodedJobs :: "receiver \<Rightarrow> receiver" where
  "fetchDecodedJobs s =
     s\<lparr>loading := True, error := None, decodedResult := None, progressLogs := [],
       progress := Num 0, esOpen := True\<rparr>"

definition onopen :: "receiver \<Rightarrow> receiver" where
  "onopen s =
     s\<lparr>progressLogs := progressLogs s @
         [\<lparr>job_id = None, log_type = ''info'',
           message = ''Connection opened. Searching for pending jobs...''\<rparr>]\<rparr>"

text \<open>The events of a stream reach the handler one after the other as long as the event
  source is open; none is dispatched after \<open>es.close()\<close>.\<close>

fun deliver :: "receiver \<Rightarrow> event list \<Rightarrow> receiver" where
  "deliver s [] = s"
| "deliver s (e # es) = (if esOpen s then deliver (onmessage s e) es else s)"

text \<open>The job ids of the entries of a log, in the order of the entries.\<close>

definition jobIds :: "logEntry list \<Rightarrow> string list" where
  "jobIds logs = List.map_filter job_id logs"

section \<open>Vocabulary of the proofs\<close>

text \<open>
  The number that a character of the data and the key character used at position \<open>i\<close>
  contribute to the operator \<open>^\<close> in the loop of the one-time pad.
\<close>

definition charNum :: "char \<Rightarrow> nat" where
  "charNum c = toInt32 (parseIntChar (Some c))"

definition keyNum :: "string \<Rightarrow> int \<Rightarrow> nat \<Rightarrow> nat" where
  "keyNum key off i = toInt32 (parseIntChar (charAt key (js_rem (off + int i) (int (length key)))))"

text \<open>The split of a string into pairs, the last one filled with a zero: what the chunk
  loop computes, by recursion on the string.\<close>

fun pairUp :: "string \<Rightarrow> string list" where
  "pairUp [] = []"
| "pairUp [a] = [[a, CHR ''0'']]"
| "pairUp (a # b # s) = [a, b] # pairUp s"

text \<open>The XOR of a whole message against the cyclically indexed key, the first character
  of the message standing at position \<open>j\<close> of the key stream.\<close>

fun xorFrom :: "string \<Rightarrow> nat \<Rightarrow> string \<Rightarrow> string" where
  "xorFrom key j [] = []"
| "xorFrom key j (c # cs) = digitChar (charNum c XOR keyNum key 0 j) # xorFrom key (Suc j) cs"

text \<open>Whether an attempt answered ok, and the message of the error it leaves otherwise.\<close>

definition isOk :: "attempt \<Rightarrow> bool" where
  "isOk a = (case a of Ok data \<Rightarrow> True | _ \<Rightarrow> False)"

definition attemptError :: "string \<Rightarrow> attempt \<Rightarrow> string option" where
  "attemptError u a =
     (case a of Threw msg \<Rightarrow> Some msg
      | NotOk msg st statusText \<Rightarrow> Some (backendError u msg st statusText)
      | Ok data \<Rightarrow> None)"

text \<open>What the attempts on a list of urls produce, one after the other, each from the
  state of the world that the one before left.\<close>

fun outcomes ::
  "('w \<Rightarrow> request \<Rightarrow> attempt \<times> 'w) \<Rightarrow> string list \<Rightarrow> real \<Rightarrow> int \<Rightarrow> string list \<Rightarrow> 'w \<Rightarrow> attempt list" where
  "outcomes fetch encChunks perr nshots [] w = []"
| "outcomes fetch encChunks perr nshots (u # urls) w =
     (case fetch w \<lparr>url = u, bits = encChunks, shots = nshots, p_error = perr\<rparr> of
        (a, w') \<Rightarrow> a # outcomes fetch encChunks perr nshots urls w')"

text \<open>The number of attempts that fail before the first one that answers ok.\<close>

definition failedBefore :: "attempt list \<Rightarrow> nat" where
  "failedBefore os = length (takeWhile (\<lambda>a. \<not> isOk a) os)"

text \<open>The upsert of the progress log, by recursion on the log.\<close>

fun upsertRec :: "logEntry list \<Rightarrow> string \<Rightarrow> logEntry \<Rightarrow> logEntry list" where
  "upsertRec [] jid entry = [entry]"
| "upsertRec (l # ls) jid entry =
     (if job_id l = Some jid then entry # ls else l # upsertRec ls jid entry)"

text \<open>The events that close the event source, the events of a stream that reach the
  handler, and the log entry of the last progress event of a job among them.\<close>

definition isTerminal :: "event \<Rightarrow> bool" where
  "isTerminal e = (case e of Done res \<Rightarrow> True | Error msg \<Rightarrow> True | _ \<Rightarrow> False)"

fun processed :: "event list \<Rightarrow> event list" where
  "processed [] = []"
| "processed (e # es) = (if isTerminal e then [e] else e # processed es)"

fun latestLog :: "string \<Rightarrow> event list \<Rightarrow> logEntry option" where
  "latestLog jid [] = None"
| "latestLog jid (e # es) =
     (case latestLog jid es of
        Some l \<Rightarrow> Some l
      | None \<Rightarrow> (case e of
                   Progress j current_job total_jobs stat msg \<Rightarrow>
                     (if j = jid then Some (newLog j current_job total_jobs stat msg) else None)
                 | _ \<Rightarrow> None))"

section \<open>Proofs\<close>

subsection \<open>One-time pad\<close>

lemma otpLoop_eq: "otpLoop chunk key off i acc = acc @ concat (map (otpStep chunk key off) [i..<length chunk])"
proof (induction chunk key off i acc rule: otpLoop.induct)
  case (1 chunk key off i acc)
  show ?case
  proof (cases "i < length chunk")
    case True
    then show ?thesis using 1 by (subst otpLoop.simps) (simp add: upt_conv_Cons)
  next
    case False
    then show ?thesis by (subst otpLoop.simps) simp
  qed
qed

lemma oneTimePadEncrypt_eq:
  "oneTimePadEncrypt chunk key off =
     (if key = [] then chunk else concat (map (otpStep chunk key off) [0..<length chunk]))"
  by (simp add: oneTimePadEncrypt_def otpLoop_eq)

lemma oneTimePadDecrypt_eq: "oneTimePadDecrypt chunk key off = oneTimePadEncrypt chunk key off"
  by (simp add: oneTimePadDecrypt_def oneTimePadEncrypt_def)

lemma digits_small: "n < 10 \<Longrightarrow> digits 10 n = [digitChar n]"
  by (subst digits.simps) simp

lemma toString_small: "n < 10 \<Longrightarrow> toString (int n) 10 = [digitChar n]"
  by (simp add: toString_def digits_small)

lemma lt10_cases: "n < 10 \<Longrightarrow> n \<in> {0, 1, 2, 3, 4, 5, 6, 7, 8, 9::nat}"
  by auto

lemma parseIntChar_digitChar: "n < 10 \<Longrightarrow> parseIntChar (Some (digitChar n)) = Some n"
  by (drule lt10_cases) (auto simp: parseIntChar_def digitChar_def)

lemma parseIntChar_lt10: "toInt32 (parseIntChar c) < 10"
  by (auto simp: parseIntChar_def toInt32_def split: option.splits)

lemma xor_bit_lt10: "v < 10 \<Longrightarrow> b < 2 \<Longrightarrow> (b XOR v) < (10::nat)"
proof -
  assume "v < 10" "b < 2"
  then have "v \<in> {0, 1, 2, 3, 4, 5, 6, 7, 8, 9}" "b \<in> {0, 1}" by auto
  then show ?thesis by auto
qed

lemma xor_cancel_nat: "(b XOR v) XOR v = (b::nat)"
  by (simp add: bit.xor_self xor.assoc)

lemma otpStep_nth:
  "i < length chunk \<Longrightarrow> otpStep chunk key off i = toString (int (charNum (chunk ! i) XOR keyNum key off i)) 10"
  by (simp add: otpStep_def charAt_def js_xor_def charNum_def keyNum_def)

lemma keyNum_lt10: "keyNum key off i < 10"
  by (simp add: keyNum_def parseIntChar_lt10)

lemma charNum_bit: "isBit c \<Longrightarrow> charNum c < 2 \<and> digitChar (charNum c) = c"
  by (auto simp: isBit_def charNum_def parseIntChar_def toInt32_def digitChar_def)

lemma charNum_digitChar: "n < 10 \<Longrightarrow> charNum (digitChar n) = n"
  by (simp add: charNum_def parseIntChar_digitChar toInt32_def)

lemma encrypt_bits:
  assumes "isBitString data" "key \<noteq> []"
  shows "oneTimePadEncrypt data key off =
           map (\<lambda>i. digitChar (charNum (data ! i) XOR keyNum key off i)) [0..<length data]"
proof -
  have "otpStep data key off i = [digitChar (charNum (data ! i) XOR keyNum key off i)]"
    if "i < length data" for i
  proof -
    have "isBit (data ! i)" using assms(1) that by (simp add: isBitString_def list_all_length)
    then have "charNum (data ! i) XOR keyNum key off i < 10"
      using charNum_bit keyNum_lt10 xor_bit_lt10 by blast
    then show ?thesis using that by (simp add: otpStep_nth toString_small)
  qed
  then have "map (otpStep data key off) [0..<length data] =
             map (\<lambda>i. [digitChar (charNum (data ! i) XOR keyNum key off i)]) [0..<length data]"
    by simp
  then have "concat (map (otpStep data key off) [0..<length data]) =
             concat (map (\<lambda>i. [digitChar (charNum (data ! i) XOR keyNum key off i)]) [0..<length data])"
    by (simp only:)
  also have "\<dots> = map (\<lambda>i. digitChar (charNum (data ! i) XOR keyNum key off i)) [0..<length data]"
    by (induction "[0..<length data]" arbitrary: data) (simp_all add: concat_map_singleton)
  finally show ?thesis using assms(2) by (simp add: oneTimePadEncrypt_eq)
qed

lemma otp_involution:
  assumes "isBitString data" "key \<noteq> []"
  shows "oneTimePadEncrypt (oneTimePadEncrypt data key off) key off = data"
proof -
  let ?enc = "oneTimePadEncrypt data key off"
  have enc: "?enc = map (\<lambda>i. digitChar (charNum (data ! i) XOR keyNum key off i)) [0..<length data]"
    using assms by (rule encrypt_bits)
  have len: "length ?enc = length data" by (simp add: enc)
  have step: "otpStep ?enc key off i = [data ! i]" if "i < length data" for i
  proof -
    have b: "isBit (data ! i)" using assms(1) that by (simp add: isBitString_def list_all_length)
    then have lt: "charNum (data ! i) XOR keyNum key off i < 10"
      using charNum_bit keyNum_lt10 xor_bit_lt10 by blast
    have "?enc ! i = digitChar (charNum (data ! i) XOR keyNum key off i)"
      using that by (simp add: enc)
    then have "charNum (?enc ! i) XOR keyNum key off i = charNum (data ! i)"
      using lt by (simp add: charNum_digitChar xor_cancel_nat)
    moreover have "charNum (data ! i) < 10" using charNum_bit [OF b] by simp
    ultimately show ?thesis
      using that len charNum_bit [OF b] by (simp add: otpStep_nth toString_small)
  qed
  have "oneTimePadEncrypt ?enc key off = concat (map (otpStep ?enc key off) [0..<length data])"
    using assms(2) len by (simp add: oneTimePadEncrypt_eq)
  also have "map (otpStep ?enc key off) [0..<length data] = map (\<lambda>i. [data ! i]) [0..<length data]"
    using step by simp
  also have "concat (map (\<lambda>i. [data ! i]) [0..<length data]) = map (\<lambda>i. data ! i) [0..<length data]"
    by (simp add: concat_map_singleton)
  also have "\<dots> = data" by (rule map_nth)
  finally show ?thesis .
qed

text \<open>
  C2. One-time-pad involution: for a bit string \<open>data\<close> that is not empty, a key that is
  not empty (any characters) and any integer offset, decrypting the encryption with the
  same key and offset gives \<open>data\<close> back; and when the key or the data is empty, both
  operations return their input unchanged.
\<close>

theorem oneTimePad_involution:
  "(isBitString data \<and> data \<noteq> [] \<and> key \<noteq> [] \<longrightarrow>
       oneTimePadDecrypt (oneTimePadEncrypt data key off) key off = data) \<and>
   (key = [] \<or> data = [] \<longrightarrow>
       oneTimePadEncrypt data key off = data \<and> oneTimePadDecrypt data key off = data)"
  by (auto simp: oneTimePadDecrypt_eq otp_involution) (auto simp: oneTimePadEncrypt_def)

theorem oneTimePad_involution_witness:
  "isBitString ''0110'' \<and> ''0110'' \<noteq> [] \<and> ''101'' \<noteq> [] \<and>
   oneTimePadEncrypt ''0110'' ''101'' 2 = ''1011'' \<and>
   oneTimePadDecrypt ''1011'' ''101'' 2 = ''0110'' \<and>
   oneTimePadEncrypt ''0110'' [] 2 = ''0110''"
proof -
  have e: "oneTimePadEncrypt ''0110'' ''101'' 2 = ''1011''" by code_simp
  have b: "isBitString ''0110''" by (simp add: isBitString_def isBit_def)
  show ?thesis
    using oneTimePad_involution [of "''0110''" "''101''" 2]
      oneTimePad_involution [of "''0110''" "[]" 2] e b by simp
qed

subsection \<open>Chunk split\<close>

lemma pairUp_drop:
  "i < length s \<Longrightarrow> pairUp (drop i s) = padEnd (slice s i (i + 2)) 2 CHR ''0'' # pairUp (drop (i + 2) s)"
proof -
  assume a: "i < length s"
  show ?thesis
  proof (cases "Suc i < length s")
    case True
    then have "drop i s = s ! i # s ! Suc i # drop (i + 2) s"
      using a by (metis Cons_nth_drop_Suc add_2_eq_Suc')
    then show ?thesis by (simp add: padEnd_def slice_def)
  next
    case False
    then have "drop i s = [s ! i]" "drop (i + 2) s = []"
      using a by (simp_all add: Cons_nth_drop_Suc [symmetric])
    then show ?thesis by (simp add: padEnd_def slice_def)
  qed
qed

lemma chunksLoop_pairUp: "chunksLoop s i acc = acc @ pairUp (drop i s)"
proof (induction s i acc rule: chunksLoop.induct)
  case (1 s i acc)
  show ?case
  proof (cases "i < length s")
    case True
    then show ?thesis using 1 by (subst chunksLoop.simps) (simp add: pairUp_drop)
  next
    case False
    then show ?thesis by (subst chunksLoop.simps) simp
  qed
qed

lemma chunksOf_pairUp: "chunksOf s = pairUp s"
  by (simp add: chunksOf_def chunksLoop_pairUp)

lemma length_pairUp: "length (pairUp s) = (length s + 1) div 2"
  by (induction s rule: pairUp.induct) simp_all

lemma pairUp_len2: "c \<in> set (pairUp s) \<Longrightarrow> length c = 2"
  by (induction s rule: pairUp.induct) auto

lemma concat_pairUp: "concat (pairUp s) = s @ replicate (length s mod 2) CHR ''0''"
  by (induction s rule: pairUp.induct) (simp_all add: mod_Suc)

lemma pairUp_nth:
  "2 * k + 2 \<le> length s \<Longrightarrow> pairUp s ! k = [s ! (2 * k), s ! (2 * k + 1)]"
proof (induction s arbitrary: k rule: pairUp.induct)
  case (3 a b s)
  then show ?case by (cases k) simp_all
qed simp_all

lemma pairUp_last:
  "odd (length s) \<Longrightarrow> last (pairUp s) = [last s, CHR ''0'']"
proof (induction s rule: pairUp.induct)
  case (3 a b s)
  then have "s \<noteq> []" by auto
  moreover then have "pairUp s \<noteq> []" by (cases s rule: pairUp.cases) simp_all
  ultimately show ?case using 3 by simp
qed simp_all

text \<open>
  C7. Chunk split coverage: the split of a bit string into chunks gives
  \<open>\<lceil>len / 2\<rceil>\<close> chunks, each of length 2; a chunk that lies wholly inside the string is
  the slice of the string, without padding; only when the length is odd the last chunk
  is the last character followed by one zero; and the concatenation of the chunks is the
  string followed by that padding, so that cutting it to the length of the string gives
  the string back.
\<close>

theorem chunk_split_coverage:
  "length (chunksOf s) = (length s + 1) div 2 \<and>
   (\<forall>c \<in> set (chunksOf s). length c = 2) \<and>
   (\<forall>k. 2 * k + 2 \<le> length s \<longrightarrow> chunksOf s ! k = slice s (2 * k) (2 * k + 2)) \<and>
   (odd (length s) \<longrightarrow> last (chunksOf s) = [last s, CHR ''0'']) \<and>
   concat (chunksOf s) = s @ replicate (length s mod 2) CHR ''0'' \<and>
   take (length s) (concat (chunksOf s)) = s"
proof -
  have "slice s (2 * k) (2 * k + 2) = [s ! (2 * k), s ! (2 * k + 1)]" if "2 * k + 2 \<le> length s" for k
  proof -
    have "drop (2 * k) s = s ! (2 * k) # s ! Suc (2 * k) # drop (2 * k + 2) s"
      using that by (metis Cons_nth_drop_Suc add_2_eq_Suc' Suc_le_lessD add_Suc_right less_Suc_eq_le nat_less_le numeral_2_eq_2)
    then show ?thesis by (simp add: slice_def)
  qed
  then show ?thesis
    by (simp add: chunksOf_pairUp length_pairUp pairUp_len2 concat_pairUp pairUp_nth pairUp_last)
qed

theorem chunk_split_coverage_witness:
  "chunksOf ''01101'' = [''01'', ''10'', ''10''] \<and>
   (''10'' \<in> set (chunksOf ''01101'') \<and> length ''10'' = 2) \<and>
   (2 * 1 + 2 \<le> length ''01101'' \<and> chunksOf ''01101'' ! 1 = slice ''01101'' (2 * 1) (2 * 1 + 2)) \<and>
   (odd (length ''01101'') \<and> last (chunksOf ''01101'') = [last ''01101'', CHR ''0'']) \<and>
   take (length ''01101'') (concat (chunksOf ''01101'')) = ''01101''"
proof -
  have c: "chunksOf ''01101'' = [''01'', ''10'', ''10'']"
    by (simp add: chunksOf_def chunksLoop.simps padEnd_def slice_def)
  have "2 * 1 + 2 \<le> length ''01101''" "odd (length ''01101'')" by simp_all
  then show ?thesis
    using chunk_split_coverage [of "''01101''"] c by (simp add: slice_def)
qed

subsection \<open>Encryption of the chunks\<close>

lemma length_xorFrom: "length (xorFrom key j s) = length s"
  by (induction s arbitrary: j) simp_all

lemma xorFrom_append: "xorFrom key j (a @ b) = xorFrom key j a @ xorFrom key (j + length a) b"
  by (induction a arbitrary: j) simp_all

lemma xorFrom_map:
  "xorFrom key j s = map (\<lambda>i. digitChar (charNum (s ! i) XOR keyNum key 0 (j + i))) [0..<length s]"
proof (induction s arbitrary: j)
  case Nil
  then show ?case by simp
next
  case (Cons c cs)
  have "[0..<length (c # cs)] = 0 # map Suc [0..<length cs]"
    using upt_conv_Cons [of 0 "Suc (length cs)"] map_Suc_upt [of 0 "length cs"]
    by (simp del: upt_Suc)
  then show ?case by (simp add: Cons.IH comp_def del: upt_Suc)
qed

lemma keyNum_chunkKeyOffset:
  "key \<noteq> [] \<Longrightarrow> keyNum key (chunkKeyOffset idx key) i = keyNum key 0 (2 * idx + i)"
proof -
  assume "key \<noteq> []"
  then have L: "0 < int (length key)" by simp
  define A where "A = int idx * 2 mod int (length key)"
  have A: "0 \<le> A" unfolding A_def using L by simp
  have off: "chunkKeyOffset idx key = A"
    by (simp add: chunkKeyOffset_def js_rem_def A_def)
  have "js_rem (A + int i) (int (length key)) = (A + int i) mod int (length key)"
    using A by (simp add: js_rem_def)
  also have "\<dots> = (int idx * 2 + int i) mod int (length key)"
    unfolding A_def by (simp add: mod_add_left_eq)
  also have "\<dots> = js_rem (0 + int (2 * idx + i)) (int (length key))"
    by (simp add: js_rem_def mult.commute)
  finally show ?thesis by (simp add: keyNum_def off)
qed

lemma encrypt_chunk:
  assumes "isBitString ch" "key \<noteq> []"
  shows "oneTimePadEncrypt ch key (chunkKeyOffset idx key) = xorFrom key (2 * idx) ch"
  using assms by (simp add: encrypt_bits xorFrom_map keyNum_chunkKeyOffset)

lemma encrypt_whole:
  assumes "isBitString d" "key \<noteq> []"
  shows "oneTimePadEncrypt d key 0 = xorFrom key 0 d"
  using assms by (simp add: encrypt_bits xorFrom_map)

lemma pairUp_bits: "isBitString s \<Longrightarrow> c \<in> set (pairUp s) \<Longrightarrow> isBitString c"
  by (induction s rule: pairUp.induct) (auto simp: isBitString_def isBit_def)

lemma concat_encrypted:
  assumes "key \<noteq> []"
  shows "isBitString s \<Longrightarrow>
         concat (map (\<lambda>(idx, ch). oneTimePadEncrypt ch key (chunkKeyOffset idx key)) (enumerate n (pairUp s)))
           = xorFrom key (2 * n) (concat (pairUp s))"
proof (induction s arbitrary: n rule: pairUp.induct)
  case 1
  then show ?case by simp
next
  case (2 a)
  then have "isBitString [a, CHR ''0'']" by (simp add: isBitString_def isBit_def)
  then show ?case using assms by (simp add: encrypt_chunk)
next
  case (3 a b s)
  then have ab: "isBitString [a, b]" and s: "isBitString s" by (simp_all add: isBitString_def)
  have "concat (map (\<lambda>(idx, ch). oneTimePadEncrypt ch key (chunkKeyOffset idx key)) (enumerate (Suc n) (pairUp s)))
           = xorFrom key (2 * Suc n) (concat (pairUp s))"
    using 3 s by blast
  then show ?case using assms ab by (simp add: encrypt_chunk)
qed

text \<open>
  C10. Chunk-then-encrypt is encrypt-then-chunk: for a bit string \<open>d\<close> and a key that
  is not empty, the concatenation of the encrypted chunks (chunk \<open>i\<close> encrypted at the
  offset \<open>(2 * i) mod len(key)\<close>, the last chunk padded with a zero), cut to the length
  of \<open>d\<close>, is the encryption of the whole of \<open>d\<close> at offset 0.
\<close>

theorem chunked_encrypt_is_whole_encrypt:
  assumes "isBitString d" "key \<noteq> []"
  shows "take (length d) (concat (encryptedChunksOf (chunksOf d) key)) = oneTimePadEncrypt d key 0"
proof -
  have "concat (encryptedChunksOf (chunksOf d) key) = xorFrom key 0 (concat (pairUp d))"
    using concat_encrypted [OF assms(2) assms(1), of 0]
    by (simp add: encryptedChunksOf_def chunksOf_pairUp)
  also have "\<dots> = xorFrom key 0 d @ xorFrom key (length d) (replicate (length d mod 2) CHR ''0'')"
    by (simp add: concat_pairUp xorFrom_append)
  finally show ?thesis using assms by (simp add: encrypt_whole length_xorFrom)
qed

theorem chunked_encrypt_is_whole_encrypt_witness:
  "isBitString ''01101'' \<and> ''101'' \<noteq> [] \<and>
   encryptedChunksOf (chunksOf ''01101'') ''101'' = [''11'', ''01'', ''11''] \<and>
   take (length ''01101'') (concat (encryptedChunksOf (chunksOf ''01101'') ''101'')) =
     oneTimePadEncrypt ''01101'' ''101'' 0"
proof -
  have b: "isBitString ''01101''" by (simp add: isBitString_def isBit_def)
  have e: "encryptedChunksOf (chunksOf ''01101'') ''101'' = [''11'', ''01'', ''11'']"
    by code_simp
  show ?thesis
    using chunked_encrypt_is_whole_encrypt [OF b, of "''101''"] b e by simp
qed

subsection \<open>Encoding\<close>

lemma digitChar_bit: "n < 2 \<Longrightarrow> isBit (digitChar n)"
proof -
  assume "n < 2"
  then have "n = 0 \<or> n = 1" by auto
  then show ?thesis by (auto simp: digitChar_def isBit_def)
qed
lemma digits2_bits: "isBitString (digits 2 n)"
proof (induction "2::nat" n rule: digits.induct)
  case (1 n)
  show ?case
  proof (cases "n < 2")
    case True
    then show ?thesis by (subst digits.simps) (simp add: isBitString_def digitChar_bit)
  next
    case False
    then have "isBitString (digits 2 (n div 2))" using 1 by simp
    moreover have "isBit (digitChar (n mod 2))" by (simp add: digitChar_bit)
    ultimately show ?thesis using False
      by (subst digits.simps) (simp add: isBitString_def)
  qed
qed
lemma digits2_nonempty: "digits 2 n \<noteq> []"
  by (subst digits.simps) simp
lemma bitsValue_snoc: "bitsValue (z @ [c]) = 2 * bitsValue z + (if c = CHR ''1'' then 1 else 0)"
  by (simp add: bitsValue_def)
lemma bitsValue_digitChar: "n < 2 \<Longrightarrow> bitsValue [digitChar n] = n"
proof -
  assume "n < 2"
  then have "n = 0 \<or> n = 1" by auto
  then show ?thesis by (auto simp: digitChar_def bitsValue_def)
qed
lemma bitsValue_digits2: "bitsValue (digits 2 n) = n"
proof (induction "2::nat" n rule: digits.induct)
  case (1 n)
  show ?case
  proof (cases "n < 2")
    case True
    then show ?thesis by (subst digits.simps) (simp add: bitsValue_digitChar)
  next
    case False
    then have ih: "bitsValue (digits 2 (n div 2)) = n div 2" using 1 by simp
    have "n mod 2 = 0 \<or> n mod 2 = 1" by auto
    then have "(if digitChar (n mod 2) = CHR ''1'' then 1 else 0) = n mod 2"
      by (auto simp: digitChar_def)
    then show ?thesis using False ih
      by (subst digits.simps) (simp add: bitsValue_snoc)
  qed
qed

lemma length_digits2_le: "n < 2 ^ k \<Longrightarrow> 0 < k \<Longrightarrow> length (digits 2 n) \<le> k"
proof (induction "2::nat" n arbitrary: k rule: digits.induct)
  case (1 n)
  show ?case
  proof (cases "n < 2")
    case True
    then show ?thesis using 1(3) by (subst digits.simps) simp
  next
    case False
    obtain j where k: "k = Suc j" using 1(3) by (cases k) auto
    have j: "0 < j"
    proof (rule ccontr)
      assume "\<not> 0 < j"
      then have "n < 2" using 1(2) k by simp
      then show False using False by simp
    qed
    have "n < 2 * 2 ^ j" using 1(2) k by simp
    then have "n div 2 < 2 ^ j" by linarith
    then have "length (digits 2 (n div 2)) \<le> j" using 1(1) False j by simp
    then show ?thesis using False k by (subst digits.simps) simp
  qed
qed
lemma length_digits2_gt: "2 ^ k \<le> n \<Longrightarrow> k < length (digits 2 n)"
proof (induction "2::nat" n arbitrary: k rule: digits.induct)
  case (1 n)
  show ?case
  proof (cases "n < 2")
    case True
    have "k = 0"
    proof (rule ccontr)
      assume "k \<noteq> 0"
      then have "(2::nat) ^ 1 \<le> 2 ^ k" by (intro power_increasing) simp_all
      then show False using True 1(2) by simp
    qed
    then show ?thesis by (subst digits.simps) simp
  next
    case False
    show ?thesis
    proof (cases k)
      case 0
      then show ?thesis using digits2_nonempty [of n] by simp
    next
      case (Suc j)
      then have "2 * 2 ^ j \<le> n" using 1(2) by simp
      then have "2 ^ j \<le> n div 2" by linarith
      then have "j < length (digits 2 (n div 2))" using 1(1) False by simp
      then show ?thesis using False Suc by (subst digits.simps) simp
    qed
  qed
qed

lemma bitsValue_zeros: "bitsValue (replicate m CHR ''0'' @ z) = bitsValue z"
  by (induction m) (simp_all add: bitsValue_def)

lemma parseInt2_bits:
  assumes "isBitString s" "s \<noteq> []"
  shows "parseInt2 s = Num (real (bitsValue s))"
proof -
  obtain c cs where s: "s = c # cs" using assms(2) by (cases s) auto
  then have c: "isBit c" using assms(1) by (simp add: isBitString_def)
  then have nw: "\<not> isWhiteSpace c" and ns: "c \<noteq> CHR ''-''" "c \<noteq> CHR ''+''"
    by (auto simp: isBit_def isWhiteSpace_def)
  have tw: "takeWhile isBit s = s"
    using assms(1) by (simp add: isBitString_def list_all_iff takeWhile_eq_all_conv)
  have "dropWhile isWhiteSpace s = s" using s nw by simp
  then show ?thesis using s ns tw assms(2) by (simp add: parseInt2_def Let_def)
qed

lemma zeros_bits: "isBitString (replicate k CHR ''0'')"
  by (induction k) (simp_all add: isBitString_def isBit_def)

lemma isBitString_append: "isBitString (a @ b) = (isBitString a \<and> isBitString b)"
  by (simp add: isBitString_def)

lemma padStart_bits: "isBitString s \<Longrightarrow> isBitString (padStart s n CHR ''0'')"
  by (simp add: padStart_def isBitString_append zeros_bits)

lemma length_padStart: "length (padStart s n c) = max n (length s)"
  by (simp add: padStart_def)

lemma round_err: "\<bar>real_of_int (Math_round x) - x\<bar> \<le> 1 / 2"
  unfolding Math_round_def by linarith

lemma binaryToFloat_padStart:
  "binaryToFloat (padStart (digits 2 n) k CHR ''0'') = Some (Num (real n / 100000 - 180))"
proof -
  let ?s = "padStart (digits 2 n) k CHR ''0''"
  have ne: "?s \<noteq> []" by (simp add: padStart_def digits2_nonempty)
  have "isBitString ?s" by (simp add: padStart_bits digits2_bits)
  then have "parseInt2 ?s = Num (real (bitsValue ?s))" using ne by (rule parseInt2_bits)
  moreover have "bitsValue ?s = n" by (simp add: padStart_def bitsValue_zeros bitsValue_digits2)
  ultimately show ?thesis using ne by (simp add: binaryToFloat_def)
qed

lemma floatToBinary_nonneg:
  "0 \<le> Math_round ((v + 180) * 100000) \<Longrightarrow>
   floatToBinary v k = padStart (digits 2 (nat (Math_round ((v + 180) * 100000)))) k CHR ''0''"
  by (simp add: floatToBinary_def toString_def Let_def)

lemma round_range:
  assumes "- 180 \<le> v" "v < 180"
  shows "0 \<le> Math_round ((v + 180) * 100000) \<and> Math_round ((v + 180) * 100000) \<le> 36000000"
proof -
  have "0 \<le> (v + 180) * 100000" "(v + 180) * 100000 < 36000000" using assms by simp_all
  then show ?thesis unfolding Math_round_def by (simp add: floor_le_iff le_floor_iff)
qed

lemma length_floatToBinary:
  assumes "- 180 \<le> v" "v < 180"
  shows "length (floatToBinary v 32) = 32"
proof -
  let ?n = "nat (Math_round ((v + 180) * 100000))"
  have r: "0 \<le> Math_round ((v + 180) * 100000)" "Math_round ((v + 180) * 100000) \<le> 36000000"
    using round_range [OF assms] by simp_all
  then have "?n < 2 ^ 32" by simp
  then have "length (digits 2 ?n) \<le> 32" by (rule length_digits2_le) simp
  then show ?thesis using r(1) by (simp add: floatToBinary_nonneg length_padStart)
qed

lemma decode_floatToBinary:
  assumes "- 180 \<le> v" "v < 180"
  shows "\<exists>v'. binaryToFloat (floatToBinary v 32) = Some (Num v') \<and> \<bar>v' - v\<bar> \<le> 1 / 200000"
proof -
  let ?x = "(v + 180) * 100000"
  have r: "0 \<le> Math_round ?x" using round_range [OF assms] by simp
  have e: "\<bar>real_of_int (Math_round ?x) - ?x\<bar> \<le> 1 / 2" by (rule round_err)
  have "binaryToFloat (floatToBinary v 32) = Some (Num (real (nat (Math_round ?x)) / 100000 - 180))"
    using r by (simp add: floatToBinary_nonneg binaryToFloat_padStart)
  moreover have "\<bar>(real (nat (Math_round ?x)) / 100000 - 180) - v\<bar> \<le> 1 / 200000"
  proof -
    have lin: "\<bar>m - (v + 180) * 100000\<bar> \<le> 1 / 2 \<Longrightarrow> \<bar>(m / 100000 - 180) - v\<bar> \<le> 1 / 200000"
      for m :: real
    proof -
      assume a: "\<bar>m - (v + 180) * 100000\<bar> \<le> 1 / 2"
      have "(m / 100000 - 180) - v = (m - (v + 180) * 100000) / 100000"
        by (simp add: field_simps)
      then have "\<bar>(m / 100000 - 180) - v\<bar> = \<bar>m - (v + 180) * 100000\<bar> / 100000"
        by (simp only: abs_divide)
      also have "\<dots> \<le> (1 / 2) / 100000"
        using a by (rule divide_right_mono) simp
      finally show ?thesis by simp
    qed
    have "real (nat (Math_round ?x)) = real_of_int (Math_round ?x)" using r by simp
    then show ?thesis using lin [OF e] by (simp only:)
  qed
  ultimately show ?thesis by blast
qed

lemma combinedBin_parts:
  assumes "length a = 32" "length b = 32"
  shows "slice (a @ b @ [x]) 0 32 = a \<and> slice (a @ b @ [x]) 32 64 = b \<and> (a @ b @ [x]) ! 64 = x"
  using assms by (simp add: slice_def nth_append)

text \<open>
  C1. Record round trip: for a latitude and a longitude in \<open>[-180, 180)\<close> and any
  restricted flag, the encoded record has 65 characters, and decoding it gives a latitude
  and a longitude within \<open>1e-5\<close> of the originals and the flag \<open>Yes\<close> exactly when the
  original flag is \<open>Yes\<close>. The numbers are exact reals here, and the bound holds for
  every value of the range, at any resolution.
\<close>

theorem record_round_trip:
  assumes "- 180 \<le> la" "la < 180" "- 180 \<le> lo" "lo < 180"
  shows "length (combinedBin (Some la) (Some lo) r) = 65 \<and>
         (\<exists>la' lo'. binaryToLatLon (combinedBin (Some la) (Some lo) r) =
              \<lparr>lat = Some (Num la'), lon = Some (Num lo'),
               restricted = Some (if r = Some ''Yes'' then ''Yes'' else ''No'')\<rparr> \<and>
            \<bar>la' - la\<bar> \<le> 1 / 100000 \<and> \<bar>lo' - lo\<bar> \<le> 1 / 100000)"
proof -
  let ?a = "floatToBinary la 32" and ?b = "floatToBinary lo 32"
  let ?x = "if r = Some ''Yes'' then CHR ''1'' else CHR ''0''"
  have la: "length ?a = 32" and lb: "length ?b = 32"
    using assms by (simp_all add: length_floatToBinary)
  have cb: "combinedBin (Some la) (Some lo) r = ?a @ ?b @ [?x]"
    by (simp add: combinedBin_def)
  obtain la' where a': "binaryToFloat ?a = Some (Num la')" "\<bar>la' - la\<bar> \<le> 1 / 200000"
    using decode_floatToBinary [OF assms(1,2)] by blast
  obtain lo' where b': "binaryToFloat ?b = Some (Num lo')" "\<bar>lo' - lo\<bar> \<le> 1 / 200000"
    using decode_floatToBinary [OF assms(3,4)] by blast
  have len: "length (?a @ ?b @ [?x]) = 65" using la lb by simp
  have "binaryToLatLon (?a @ ?b @ [?x]) =
          \<lparr>lat = Some (Num la'), lon = Some (Num lo'),
           restricted = Some (if r = Some ''Yes'' then ''Yes'' else ''No'')\<rparr>"
    unfolding binaryToLatLon_def Let_def
    using len combinedBin_parts [OF la lb, of ?x] a'(1) b'(1)
    by (simp del: length_append append_assoc)
  moreover have "\<bar>la' - la\<bar> \<le> 1 / 100000" "\<bar>lo' - lo\<bar> \<le> 1 / 100000"
    using a'(2) b'(2) by simp_all
  ultimately show ?thesis using len cb by auto
qed

theorem record_round_trip_witness:
  "(- 180 \<le> (12.34567::real) \<and> (12.34567::real) < 180 \<and> - 180 \<le> (- 77.5::real) \<and> (- 77.5::real) < 180) \<and>
   length (combinedBin (Some 12.34567) (Some (- 77.5)) (Some ''Yes'')) = 65 \<and>
   (\<exists>la' lo'. binaryToLatLon (combinedBin (Some 12.34567) (Some (- 77.5)) (Some ''Yes'')) =
              \<lparr>lat = Some (Num la'), lon = Some (Num lo'), restricted = Some ''Yes''\<rparr> \<and>
            \<bar>la' - 12.34567\<bar> \<le> 1 / 100000 \<and> \<bar>lo' - (- 77.5)\<bar> \<le> 1 / 100000)"
  using record_round_trip [of "12.34567" "- 77.5" "Some ''Yes''"] by simp

text \<open>
  C6, as the code has it. When the scaled integer \<open>round((value + 180) * 1e5)\<close> exceeds
  \<open>2^32 - 1\<close> and is at most \<open>2^53\<close> (the range in which a double holds every
  integer), \<open>floatToBinary\<close> returns, without an error, the whole binary numeral of that
  integer: a bit string of more than 32 and at most 54 characters, which parses back to
  the same integer. Nothing is wrapped or cut.
\<close>

theorem floatToBinary_overflow_keeps_all_digits:
  assumes "2 ^ 32 - 1 < Math_round ((v + 180) * 100000)"
    and "Math_round ((v + 180) * 100000) \<le> 2 ^ 53"
  shows "floatToBinary v 32 = digits 2 (nat (Math_round ((v + 180) * 100000))) \<and>
         32 < length (floatToBinary v 32) \<and>
         length (floatToBinary v 32) \<le> 54 \<and>
         isBitString (floatToBinary v 32) \<and>
         parseInt2 (floatToBinary v 32) = Num (real_of_int (Math_round ((v + 180) * 100000)))"
proof -
  let ?n = "nat (Math_round ((v + 180) * 100000))"
  have nn: "0 \<le> Math_round ((v + 180) * 100000)" using assms(1) by simp
  have "2 ^ 32 \<le> ?n" using assms(1) by simp
  then have len: "32 < length (digits 2 ?n)" by (rule length_digits2_gt)
  then have eq: "floatToBinary v 32 = digits 2 ?n"
    using nn by (simp add: floatToBinary_nonneg padStart_def)
  have "?n \<le> 2 ^ 53" using assms(2) nn by simp
  also have "(2::nat) ^ 53 < 2 ^ 54" by simp
  finally have "?n < 2 ^ 54" .
  then have le: "length (digits 2 ?n) \<le> 54" by (rule length_digits2_le) simp
  have "parseInt2 (digits 2 ?n) = Num (real (bitsValue (digits 2 ?n)))"
    by (rule parseInt2_bits) (simp_all add: digits2_bits digits2_nonempty)
  then have "parseInt2 (digits 2 ?n) = Num (real_of_int (Math_round ((v + 180) * 100000)))"
    using nn by (simp add: bitsValue_digits2)
  then show ?thesis using eq len le by (simp add: digits2_bits)
qed

lemma round_big: "Math_round ((42769.67296 + 180) * 100000) = 4294967296"
  by (simp add: Math_round_def)

lemma digits_big: "digits 2 4294967296 = ''100000000000000000000000000000000''"
  by (simp add: digits.simps digitChar_def)

text \<open>
  C6, as the claim states it, fails: at \<open>value = 42769.67296\<close> the scaled integer is
  \<open>2^32\<close> and the output has 33 characters, not 32.
\<close>

theorem floatToBinary_overflow_counterexample:
  "2 ^ 32 - 1 < Math_round ((42769.67296 + 180) * 100000) \<and>
   floatToBinary 42769.67296 32 = ''100000000000000000000000000000000'' \<and>
   length (floatToBinary 42769.67296 32) \<noteq> 32"
proof -
  have "floatToBinary 42769.67296 32 = ''100000000000000000000000000000000''"
    unfolding floatToBinary_def Let_def round_big
    by (simp add: toString_def digits_big padStart_def)
  then show ?thesis by (simp add: Math_round_def)
qed

theorem floatToBinary_overflow_witness:
  "2 ^ 32 - 1 < Math_round ((42769.67296 + 180) * 100000) \<and>
   Math_round ((42769.67296 + 180) * 100000) \<le> 2 ^ 53 \<and>
   32 < length (floatToBinary 42769.67296 32) \<and>
   length (floatToBinary 42769.67296 32) \<le> 54 \<and>
   isBitString (floatToBinary 42769.67296 32)"
proof -
  have h: "2 ^ 32 - 1 < Math_round ((42769.67296 + 180) * 100000)"
    by (simp add: Math_round_def)
  have k: "Math_round ((42769.67296 + 180) * 100000) \<le> 2 ^ 53"
    by (simp add: Math_round_def)
  show ?thesis using h k floatToBinary_overflow_keeps_all_digits [OF h k] by blast
qed

subsection \<open>Decoding\<close>

lemma binaryToFloat_bits:
  assumes "isBitString s" "s \<noteq> []"
  shows "binaryToFloat s = Some (Num (real (bitsValue s) / 100000 - 180))"
  using assms by (simp add: binaryToFloat_def parseInt2_bits)

lemma isBitString_take: "isBitString s \<Longrightarrow> isBitString (take n s)"
  by (auto simp: isBitString_def list_all_iff dest: in_set_takeD)

lemma isBitString_drop: "isBitString s \<Longrightarrow> isBitString (drop n s)"
  by (auto simp: isBitString_def list_all_iff dest: in_set_dropD)

text \<open>
  C8. Short-input decode: for an input of fewer than 65 characters \<open>binaryToLatLon\<close>
  reports latitude and longitude as \<open>null\<close>, and the flag as \<open>No\<close> (\<open>null\<close> for the
  empty input), there being no bit 64 to read; for an input of at least 65 characters
  the latitude is decoded from the characters \<open>[0, 32)\<close>, the longitude from
  \<open>[32, 64)\<close> and the flag from character 64, and for a bit string these are the
  binary values divided by \<open>1e5\<close>, minus 180.
\<close>

theorem binaryToLatLon_short_and_full:
  "(length b < 65 \<longrightarrow>
      lat (binaryToLatLon b) = None \<and> lon (binaryToLatLon b) = None \<and>
      restricted (binaryToLatLon b) = (if b = [] then None else Some ''No'')) \<and>
   (65 \<le> length b \<longrightarrow>
      binaryToLatLon b =
        \<lparr>lat = binaryToFloat (slice b 0 32), lon = binaryToFloat (slice b 32 64),
         restricted = Some (if b ! 64 = CHR ''1'' then ''Yes'' else ''No'')\<rparr>) \<and>
   (65 \<le> length b \<and> isBitString b \<longrightarrow>
      lat (binaryToLatLon b) = Some (Num (real (bitsValue (take 32 b)) / 100000 - 180)) \<and>
      lon (binaryToLatLon b) = Some (Num (real (bitsValue (take 32 (drop 32 b))) / 100000 - 180)))"
proof (intro conjI impI)
  assume "length b < 65"
  then show "lat (binaryToLatLon b) = None" "lon (binaryToLatLon b) = None"
    "restricted (binaryToLatLon b) = (if b = [] then None else Some ''No'')"
    by (simp_all add: binaryToLatLon_def)
next
  assume "65 \<le> length b"
  then have "b \<noteq> []" by auto
  then show "binaryToLatLon b =
        \<lparr>lat = binaryToFloat (slice b 0 32), lon = binaryToFloat (slice b 32 64),
         restricted = Some (if b ! 64 = CHR ''1'' then ''Yes'' else ''No'')\<rparr>"
    using \<open>65 \<le> length b\<close> by (simp add: binaryToLatLon_def Let_def)
next
  assume a: "65 \<le> length b \<and> isBitString b"
  then have ne: "b \<noteq> []" by auto
  have t1: "isBitString (take 32 b)" "take 32 b \<noteq> []"
    using a ne by (simp_all add: isBitString_take)
  have t2: "isBitString (take 32 (drop 32 b))" "take 32 (drop 32 b) \<noteq> []"
    using a by (simp_all add: isBitString_take isBitString_drop)
  show "lat (binaryToLatLon b) = Some (Num (real (bitsValue (take 32 b)) / 100000 - 180))"
    using a ne binaryToFloat_bits [OF t1] by (simp add: binaryToLatLon_def Let_def slice_def)
  show "lon (binaryToLatLon b) = Some (Num (real (bitsValue (take 32 (drop 32 b))) / 100000 - 180))"
    using a ne binaryToFloat_bits [OF t2] by (simp add: binaryToLatLon_def Let_def slice_def)
qed

theorem binaryToLatLon_short_and_full_witness:
  "(length ''101'' < 65 \<and> binaryToLatLon ''101'' = \<lparr>lat = None, lon = None, restricted = Some ''No''\<rparr>) \<and>
   (65 \<le> length ''00000000000000000000000000000000111111111111111111111111111111111'' \<and>
    isBitString ''00000000000000000000000000000000111111111111111111111111111111111'' \<and>
    binaryToLatLon ''00000000000000000000000000000000111111111111111111111111111111111'' =
      \<lparr>lat = Some (Num (- 180)), lon = Some (Num (4294967295 / 100000 - 180)), restricted = Some ''Yes''\<rparr>)"
proof -
  let ?B = "''00000000000000000000000000000000111111111111111111111111111111111''"
  have s: "length ''101'' < 65" by simp
  have l: "65 \<le> length ?B" by simp
  have b: "isBitString ?B" by (simp add: isBitString_def isBit_def)
  have v1: "bitsValue (take 32 ?B) = 0" by (simp add: bitsValue_def)
  have v2: "bitsValue (take 32 (drop 32 ?B)) = 4294967295"
    by (simp add: bitsValue_def)
  have r: "?B ! 64 = CHR ''1''" by simp
  note T = binaryToLatLon_short_and_full [of ?B]
  have short: "binaryToLatLon ''101'' = \<lparr>lat = None, lon = None, restricted = Some ''No''\<rparr>"
    using binaryToLatLon_short_and_full [of "''101''"] s by (cases "binaryToLatLon ''101''") simp
  have "lat (binaryToLatLon ?B) = Some (Num (real (bitsValue (take 32 ?B)) / 100000 - 180))"
    using T l b by blast
  then have la: "lat (binaryToLatLon ?B) = Some (Num (- 180))"
    using v1 by simp
  have "lon (binaryToLatLon ?B) = Some (Num (real (bitsValue (take 32 (drop 32 ?B))) / 100000 - 180))"
    using T l b by blast
  then have lo: "lon (binaryToLatLon ?B) = Some (Num (4294967295 / 100000 - 180))"
    using v2 by simp
  have "restricted (binaryToLatLon ?B) = Some (if ?B ! 64 = CHR ''1'' then ''Yes'' else ''No'')"
    using T l by simp
  then have re: "restricted (binaryToLatLon ?B) = Some ''Yes''"
    using r by simp
  have full: "binaryToLatLon ?B =
      \<lparr>lat = Some (Num (- 180)), lon = Some (Num (4294967295 / 100000 - 180)), restricted = Some ''Yes''\<rparr>"
    using la lo re by (cases "binaryToLatLon ?B") simp
  show ?thesis using s l b short full by blast
qed

subsection \<open>Transmission results\<close>

lemma transmissionResultsOf_nth:
  "idx < length encChunks \<Longrightarrow>
   transmissionResultsOf chunks encChunks qkdKey cms ! idx =
     transmissionResultAt chunks qkdKey cms idx (encChunks ! idx)"
  by (simp add: transmissionResultsOf_def nth_enumerate_eq)

lemma length_transmissionResultsOf:
  "length (transmissionResultsOf chunks encChunks qkdKey cms) = length encChunks"
  by (simp add: transmissionResultsOf_def)

text \<open>
  C4. Fidelity gate and defaults: for every chunk index, the transmission result has
  status \<open>OK\<close> exactly when its fidelity is at least 50 and \<open>Failed\<close> exactly when it is
  below; fidelity and received chunk come from the backend's item for that index, and
  when the backend has no item for the index (the list is too short, or the entry is
  \<open>null\<close>) the received chunk is the encrypted chunk, the fidelity is 0 and the status
  is \<open>Failed\<close>.
\<close>

theorem fidelity_gate:
  assumes "idx < length encChunks"
  shows "(status (transmissionResultsOf chunks encChunks qkdKey cms ! idx) = ''OK'') =
           (50 \<le> fidelity (transmissionResultsOf chunks encChunks qkdKey cms ! idx)) \<and>
         (status (transmissionResultsOf chunks encChunks qkdKey cms ! idx) = ''Failed'') =
           (fidelity (transmissionResultsOf chunks encChunks qkdKey cms ! idx) < 50) \<and>
         (\<forall>item. idx < length cms \<and> cms ! idx = Some item \<longrightarrow>
            fidelity (transmissionResultsOf chunks encChunks qkdKey cms ! idx) =
              (case item_fidelity item of Some f \<Rightarrow> f | None \<Rightarrow> 0) \<and>
            receivedChunk (transmissionResultsOf chunks encChunks qkdKey cms ! idx) =
              (case corrected_message item of Some m \<Rightarrow> m | None \<Rightarrow> encChunks ! idx)) \<and>
         (length cms \<le> idx \<or> cms ! idx = None \<longrightarrow>
            receivedChunk (transmissionResultsOf chunks encChunks qkdKey cms ! idx) = encChunks ! idx \<and>
            fidelity (transmissionResultsOf chunks encChunks qkdKey cms ! idx) = 0 \<and>
            status (transmissionResultsOf chunks encChunks qkdKey cms ! idx) = ''Failed'')"
  using assms
  by (auto simp: transmissionResultsOf_nth transmissionResultAt_def itemAt_def Let_def
        split: option.splits)

theorem fidelity_gate_witness:
  "(0 < length [''11'', ''01'', ''11''] \<and> 1 < length [''11'', ''01'', ''11''] \<and>
    2 < length [''11'', ''01'', ''11'']) \<and>
   (let rs = transmissionResultsOf [''01'', ''10'', ''10''] [''11'', ''01'', ''11''] ''101''
        [Some \<lparr>corrected_message = Some ''10'', item_fidelity = Some 49.999\<rparr>,
         Some \<lparr>corrected_message = Some ''01'', item_fidelity = Some 50\<rparr>]
    in (status (rs ! 0) = ''Failed'' \<and> fidelity (rs ! 0) = 49.999 \<and> receivedChunk (rs ! 0) = ''10'') \<and>
       (status (rs ! 1) = ''OK'' \<and> fidelity (rs ! 1) = 50 \<and> receivedChunk (rs ! 1) = ''01'') \<and>
       (status (rs ! 2) = ''Failed'' \<and> fidelity (rs ! 2) = 0 \<and> receivedChunk (rs ! 2) = ''11''))"
proof -
  let ?cms = "[Some \<lparr>corrected_message = Some ''10'', item_fidelity = Some 49.999\<rparr>,
         Some \<lparr>corrected_message = Some ''01'', item_fidelity = Some 50\<rparr>]"
  let ?rs = "transmissionResultsOf [''01'', ''10'', ''10''] [''11'', ''01'', ''11''] ''101'' ?cms"
  have r0: "status (?rs ! 0) = ''Failed'' \<and> fidelity (?rs ! 0) = 49.999 \<and> receivedChunk (?rs ! 0) = ''10''"
    using fidelity_gate [of 0 "[''11'', ''01'', ''11'']" "[''01'', ''10'', ''10'']" "''101''" ?cms] by simp
  have r1: "status (?rs ! 1) = ''OK'' \<and> fidelity (?rs ! 1) = 50 \<and> receivedChunk (?rs ! 1) = ''01''"
    using fidelity_gate [of 1 "[''11'', ''01'', ''11'']" "[''01'', ''10'', ''10'']" "''101''" ?cms] by simp
  have r2: "status (?rs ! 2) = ''Failed'' \<and> fidelity (?rs ! 2) = 0 \<and> receivedChunk (?rs ! 2) = ''11''"
    using fidelity_gate [of 2 "[''11'', ''01'', ''11'']" "[''01'', ''10'', ''10'']" "''101''" ?cms] by simp
  show ?thesis using r0 r1 r2 by (simp add: Let_def)
qed

subsection \<open>Reconstruction\<close>

lemma join_empty: "join xs [] = concat xs"
  by (induction xs "[]::string" rule: join.induct) simp_all

lemma length_decrypt_bits:
  assumes "isBitString c" "key \<noteq> []"
  shows "length (oneTimePadDecrypt c key off) = length c"
  using assms by (simp add: oneTimePadDecrypt_eq encrypt_bits)

lemma drop_concat_pairs:
  "i \<le> length xs \<Longrightarrow> \<forall>j<i. length (xs ! j) = 2 \<Longrightarrow> drop (2 * i) (concat xs) = concat (drop i xs)"
proof (induction xs arbitrary: i)
  case Nil
  then show ?case by simp
next
  case (Cons x xs)
  show ?case
  proof (cases i)
    case 0
    then show ?thesis by simp
  next
    case (Suc k)
    then have x: "length x = 2" using Cons.prems(2) by auto
    have "\<forall>j<k. length (xs ! j) = 2" using Cons.prems(2) Suc by auto
    moreover have "k \<le> length xs" using Cons.prems(1) Suc by simp
    ultimately have "drop (2 * k) (concat xs) = concat (drop k xs)" by (rule Cons.IH [rotated -1]) 
    then show ?thesis using Suc x by simp
  qed
qed

lemma reconstruct_eq:
  "qkdKey \<noteq> [] \<Longrightarrow>
   reconstructBinaryData (Some res) qkdKey = concat (map (reconstructChunk qkdKey) (transmissionResults res))"
  by (simp add: reconstructBinaryData_def join_empty)

text \<open>
  C3. Reconstruction fallback: with a key that is not empty and results whose original
  chunk is not empty, the reconstructed string is the concatenation, in the order of the
  list, of the decryption of \<open>receivedChunk\<close> at the result's \<open>keyOffset\<close> for a result
  with status \<open>OK\<close>, and of \<open>originalChunk\<close> as it is for any other result. In
  particular, when of 10 results exactly the one at index 3 is \<open>Failed\<close>, the chunks
  being two characters long and the received ones bit strings, the characters 6 and 7 of
  the reconstruction are that result's \<open>originalChunk\<close>.
\<close>

theorem reconstruction_fallback:
  assumes key: "qkdKey \<noteq> []"
    and orig: "\<forall>r \<in> set (transmissionResults res). status r \<noteq> ''OK'' \<longrightarrow> originalChunk r \<noteq> []"
  shows "reconstructBinaryData (Some res) qkdKey =
           concat (map (\<lambda>r. if status r = ''OK''
                             then oneTimePadDecrypt (receivedChunk r) qkdKey (keyOffset r)
                             else originalChunk r) (transmissionResults res)) \<and>
         (length (transmissionResults res) = 10 \<and>
          status (transmissionResults res ! 3) = ''Failed'' \<and>
          length (originalChunk (transmissionResults res ! 3)) = 2 \<and>
          (\<forall>j<10. j \<noteq> 3 \<longrightarrow> status (transmissionResults res ! j) = ''OK'' \<and>
                     isBitString (receivedChunk (transmissionResults res ! j)) \<and>
                     length (receivedChunk (transmissionResults res ! j)) = 2)
          \<longrightarrow> take 2 (drop 6 (reconstructBinaryData (Some res) qkdKey)) =
                originalChunk (transmissionResults res ! 3))"
proof (intro conjI impI)
  let ?rs = "transmissionResults res"
  have "map (reconstructChunk qkdKey) ?rs =
        map (\<lambda>r. if status r = ''OK''
                  then oneTimePadDecrypt (receivedChunk r) qkdKey (keyOffset r)
                  else originalChunk r) ?rs"
    using orig by (simp add: reconstructChunk_def)
  then have "concat (map (reconstructChunk qkdKey) ?rs) =
        concat (map (\<lambda>r. if status r = ''OK''
                  then oneTimePadDecrypt (receivedChunk r) qkdKey (keyOffset r)
                  else originalChunk r) ?rs)"
    by (rule arg_cong)
  then show "reconstructBinaryData (Some res) qkdKey =
           concat (map (\<lambda>r. if status r = ''OK''
                             then oneTimePadDecrypt (receivedChunk r) qkdKey (keyOffset r)
                             else originalChunk r) ?rs)"
    unfolding reconstruct_eq [OF key] .
next
  let ?rs = "transmissionResults res"
  let ?cs = "map (reconstructChunk qkdKey) ?rs"
  assume a: "length ?rs = 10 \<and> status (?rs ! 3) = ''Failed'' \<and>
          length (originalChunk (?rs ! 3)) = 2 \<and>
          (\<forall>j<10. j \<noteq> 3 \<longrightarrow> status (?rs ! j) = ''OK'' \<and>
                     isBitString (receivedChunk (?rs ! j)) \<and>
                     length (receivedChunk (?rs ! j)) = 2)"
  then have len: "length ?rs = 10" by simp
  have c3: "?cs ! 3 = originalChunk (?rs ! 3)"
    using a by (auto simp: reconstructChunk_def)
  have before: "\<forall>j<3. length (?cs ! j) = 2"
  proof (intro allI impI)
    fix j :: nat
    assume j: "j < 3"
    then have "status (?rs ! j) = ''OK'' \<and> isBitString (receivedChunk (?rs ! j)) \<and>
               length (receivedChunk (?rs ! j)) = 2"
      using a by auto
    then show "length (?cs ! j) = 2"
      using j len key by (simp add: reconstructChunk_def length_decrypt_bits)
  qed
  have "drop (2 * 3) (concat ?cs) = concat (drop 3 ?cs)"
    using before len by (intro drop_concat_pairs) simp_all
  moreover have "drop 3 ?cs = ?cs ! 3 # drop 4 ?cs"
    using len by (simp add: Cons_nth_drop_Suc [symmetric] del: nth_map)
  ultimately have "take 2 (drop 6 (concat ?cs)) = ?cs ! 3"
    using c3 a by simp
  then show "take 2 (drop 6 (reconstructBinaryData (Some res) qkdKey)) = originalChunk (?rs ! 3)"
    unfolding reconstruct_eq [OF key] c3 .
qed

theorem reconstruction_fallback_witness:
  "(let ok = (\<lambda>i. \<lparr>index = i, originalChunk = ''01'', encryptedChunk = ''11'', receivedChunk = ''11'',
                      status = ''OK'', fidelity = 100, keyOffset = 0\<rparr>);
        failed = \<lparr>index = 3, originalChunk = ''10'', encryptedChunk = ''00'', receivedChunk = ''11'',
                  status = ''Failed'', fidelity = 10, keyOffset = 0\<rparr>;
        rs = [ok 0, ok 1, ok 2, failed, ok 4, ok 5, ok 6, ok 7, ok 8, ok 9];
        res = \<lparr>originalChunks = map originalChunk rs, encryptedChunks = map encryptedChunk rs,
               transmissionResults = rs, totalChunks = 10, successfulTransmissions = 9,
               res_fidelities_shor = [], res_fidelities_noisy = [], res_fidelities_ideal = [],
               res_fidelity_graph = None\<rparr>
    in ''10'' \<noteq> [] \<and>
       length rs = 10 \<and> status (rs ! 3) = ''Failed'' \<and> length (originalChunk (rs ! 3)) = 2 \<and>
       take 2 (drop 6 (reconstructBinaryData (Some res) ''10'')) = ''10'')"
proof -
  define ok where "ok = (\<lambda>i. \<lparr>index = i, originalChunk = ''01'', encryptedChunk = ''11'', receivedChunk = ''11'',
                      status = ''OK'', fidelity = 100, keyOffset = 0\<rparr>)"
  define failed where "failed = \<lparr>index = 3, originalChunk = ''10'', encryptedChunk = ''00'', receivedChunk = ''11'',
                  status = ''Failed'', fidelity = 10, keyOffset = 0\<rparr>"
  define rs where "rs = [ok 0, ok 1, ok 2, failed, ok 4, ok 5, ok 6, ok 7, ok 8, ok 9]"
  define res where "res = \<lparr>originalChunks = map originalChunk rs, encryptedChunks = map encryptedChunk rs,
               transmissionResults = rs, totalChunks = 10, successfulTransmissions = 9,
               res_fidelities_shor = [], res_fidelities_noisy = [], res_fidelities_ideal = [],
               res_fidelity_graph = None\<rparr>"
  have tr: "transmissionResults res = rs" by (simp add: res_def)
  have h1: "''10'' \<noteq> []" by simp
  have h2: "\<forall>r \<in> set rs. status r \<noteq> ''OK'' \<longrightarrow> originalChunk r \<noteq> []"
    by (simp add: rs_def ok_def failed_def)
  have h3: "length rs = 10 \<and> status (rs ! 3) = ''Failed'' \<and> length (originalChunk (rs ! 3)) = 2"
    by (simp add: rs_def failed_def)
  have h4: "\<forall>j<10. j \<noteq> 3 \<longrightarrow> status (rs ! j) = ''OK'' \<and> isBitString (receivedChunk (rs ! j)) \<and>
                  length (receivedChunk (rs ! j)) = 2"
  proof (intro allI impI)
    fix j :: nat
    assume "j < 10" "j \<noteq> 3"
    then have "j \<in> {0, 1, 2, 4, 5, 6, 7, 8, 9}" by auto
    then show "status (rs ! j) = ''OK'' \<and> isBitString (receivedChunk (rs ! j)) \<and>
                  length (receivedChunk (rs ! j)) = 2"
      by (auto simp: rs_def ok_def isBitString_def isBit_def)
  qed
  have "take 2 (drop 6 (reconstructBinaryData (Some res) ''10'')) = originalChunk (rs ! 3)"
    using reconstruction_fallback [of "''10''" res] h1 h2 h3 h4 unfolding tr by blast
  then have c: "take 2 (drop 6 (reconstructBinaryData (Some res) ''10'')) = ''10''"
    by (simp add: rs_def failed_def)
  show ?thesis
    unfolding Let_def
    using h1 h3 c
    unfolding res_def rs_def ok_def failed_def
    by blast
qed

subsection \<open>Endpoint failover\<close>

lemma length_outcomes: "length (outcomes fetch enc perr ns urls w) = length urls"
  by (induction urls arbitrary: w) (simp_all split: prod.splits)

lemma sendLoop_spec:
  "sendLoop fetch chunks enc key perr ns urls lastError tried w = (r, tried', w') \<Longrightarrow>
   (let os = outcomes fetch enc perr ns urls w; n = failedBefore os in
      tried' = tried @ take (Suc n) urls \<and>
      (n < length urls \<longrightarrow>
         (\<exists>data. os ! n = Ok data \<and> r = Inr (buildResults chunks enc key data))) \<and>
      (n = length urls \<longrightarrow>
         r = Inl (if urls = [] then lastError else attemptError (last urls) (last os))))"
proof (induction urls arbitrary: lastError tried w)
  case Nil
  then show ?case by (simp add: failedBefore_def)
next
  case (Cons u urls)
  obtain a w1 where f: "fetch w \<lparr>url = u, bits = enc, shots = ns, p_error = perr\<rparr> = (a, w1)"
    by (cases "fetch w \<lparr>url = u, bits = enc, shots = ns, p_error = perr\<rparr>") auto
  let ?os = "outcomes fetch enc perr ns urls w1"
  have os: "outcomes fetch enc perr ns (u # urls) w = a # ?os" using f by simp
  have len: "length ?os = length urls" by (rule length_outcomes)
  have e: "(?os = []) = (urls = [])" using len by (metis length_0_conv)
  show ?case
  proof (cases a)
    case (Ok data)
    then show ?thesis using Cons.prems f os by (simp add: failedBefore_def isOk_def)
  next
    case (Threw msg)
    then have rec: "sendLoop fetch chunks enc key perr ns urls (Some msg) (tried @ [u]) w1 = (r, tried', w')"
      using Cons.prems f by simp
    have n: "failedBefore (a # ?os) = Suc (failedBefore ?os)"
      using Threw by (simp add: failedBefore_def isOk_def)
    have le: "failedBefore ?os \<le> length urls"
      using len length_takeWhile_le [of "\<lambda>a. \<not> isOk a" ?os] by (simp add: failedBefore_def)
    show ?thesis
      using Cons.IH [OF rec] n os len le e Threw
      by (auto simp: Let_def attemptError_def)
  next
    case (NotOk msg st statusText)
    then have rec: "sendLoop fetch chunks enc key perr ns urls
        (Some (backendError u msg st statusText)) (tried @ [u]) w1 = (r, tried', w')"
      using Cons.prems f by simp
    have n: "failedBefore (a # ?os) = Suc (failedBefore ?os)"
      using NotOk by (simp add: failedBefore_def isOk_def)
    have le: "failedBefore ?os \<le> length urls"
      using len length_takeWhile_le [of "\<lambda>a. \<not> isOk a" ?os] by (simp add: failedBefore_def)
    show ?thesis
      using Cons.IH [OF rec] n os len le e NotOk
      by (auto simp: Let_def attemptError_def)
  qed
qed

lemma failedBefore_props:
  "failedBefore os \<le> length os \<and> (\<forall>k < failedBefore os. \<not> isOk (os ! k)) \<and>
   (failedBefore os < length os \<longrightarrow> isOk (os ! failedBefore os))"
proof (intro conjI allI impI)
  show "failedBefore os \<le> length os"
    by (simp add: failedBefore_def length_takeWhile_le)
next
  fix k
  assume k: "k < failedBefore os"
  let ?tw = "takeWhile (\<lambda>a. \<not> isOk a) os"
  have "?tw ! k \<in> set ?tw" using k by (simp add: failedBefore_def)
  then have "\<not> isOk (?tw ! k)" by (rule set_takeWhileD [THEN conjunct2])
  moreover have "?tw ! k = os ! k" using k by (simp add: failedBefore_def takeWhile_nth)
  ultimately show "\<not> isOk (os ! k)" by simp
next
  assume "failedBefore os < length os"
  then show "isOk (os ! failedBefore os)"
    using nth_length_takeWhile [of "\<lambda>a. \<not> isOk a" os] by (simp add: failedBefore_def)
qed

lemma join_contains: "u \<in> set xs \<Longrightarrow> \<exists>a b. join xs sep = a @ u @ b"
proof (induction xs sep rule: join.induct)
  case (1 sep)
  then show ?case by simp
next
  case (2 x sep)
  then have "join [x] sep = [] @ u @ []" by simp
  then show ?case by blast
next
  case (3 x y ys sep)
  show ?case
  proof (cases "u = x")
    case True
    then have "join (x # y # ys) sep = [] @ u @ (sep @ join (y # ys) sep)" by simp
    then show ?thesis by blast
  next
    case False
    then obtain a b where "join (y # ys) sep = a @ u @ b" using 3 by auto
    then have "join (x # y # ys) sep = (x @ sep @ a) @ u @ b" by simp
    then show ?thesis by blast
  qed
qed

lemma failureMessage_ends: "\<exists>a. failureMessage urls (Some m) = a @ m"
proof (cases "m = []")
  case True
  then have "failureMessage urls (Some m) = failureMessage urls (Some m) @ m" by simp
  then show ?thesis by blast
next
  case False
  then have "failureMessage urls (Some m) =
    (''Failed to connect to any error correction service. '' @
     ''Tried: '' @ join urls '', '' @ ''. '' @ ''Last error: '') @ m"
    by (simp add: failureMessage_def)
  then show ?thesis by blast
qed

lemma failureMessage_names: "u \<in> set urls \<Longrightarrow> \<exists>a b. failureMessage urls e = a @ u @ b"
proof -
  assume "u \<in> set urls"
  then obtain a b where j: "join urls '', '' = a @ u @ b" using join_contains by blast
  have "failureMessage urls e =
     (''Failed to connect to any error correction service. '' @ ''Tried: '' @ a) @ u @
     (b @ ''. '' @ ''Last error: '' @
       (case e of Some m \<Rightarrow> (if m \<noteq> [] then m else ''Unknown error'') | None \<Rightarrow> ''Unknown error''))"
    unfolding failureMessage_def j by simp
  then show ?thesis by blast
qed

text \<open>
  C5. Endpoint failover: the urls tried are an initial part of the list of candidates,
  in the order of the list and each position once: all the candidates before the first
  that answers ok, and that one. When a candidate answers ok, the result is built from
  its answer and no later candidate is tried. The call fails exactly when every
  candidate fails; then every candidate was tried and the one error message contains
  every url of the list and ends with the message of the last error.
\<close>

theorem endpoint_failover:
  assumes "binaryData \<noteq> []" "qkdKey \<noteq> []"
    and run: "processSuperdenseCoding fetch cfg binaryData qkdKey perr nshots w = (r, tried, w')"
  shows "(let chunks = chunksOf binaryData;
              enc = encryptedChunksOf chunks qkdKey;
              urls = urlsToTry cfg;
              os = outcomes fetch enc perr nshots urls w;
              n = failedBefore os
          in tried = take (Suc n) urls \<and>
             (\<forall>k<n. \<not> isOk (os ! k)) \<and>
             (n < length urls \<longrightarrow>
                (\<exists>data. os ! n = Ok data \<and> r = Inr (Some (buildResults chunks enc qkdKey data)))) \<and>
             ((\<exists>msg. r = Inl msg) = (n = length urls)) \<and>
             (n = length urls \<longrightarrow>
                tried = urls \<and>
                (\<exists>m. attemptError (last urls) (last os) = Some m \<and>
                     r = Inl (failureMessage urls (Some m)) \<and>
                     (\<exists>a. failureMessage urls (Some m) = a @ m) \<and>
                     (\<forall>u \<in> set urls. \<exists>a b. failureMessage urls (Some m) = a @ u @ b))))"
proof -
  let ?chunks = "chunksOf binaryData"
  let ?enc = "encryptedChunksOf ?chunks qkdKey"
  let ?urls = "urlsToTry cfg"
  let ?os = "outcomes fetch ?enc perr nshots ?urls w"
  let ?n = "failedBefore ?os"
  obtain r0 where loop: "sendLoop fetch ?chunks ?enc qkdKey perr nshots ?urls None [] w = (r0, tried, w')"
    and r: "r = (case r0 of Inr res \<Rightarrow> Inr (Some res) | Inl lastError \<Rightarrow> Inl (failureMessage ?urls lastError))"
    using assms by (auto simp: processSuperdenseCoding_def Let_def split: prod.splits sum.splits)
  have ne: "?urls \<noteq> []" by (simp add: urlsToTry_def)
  have len: "length ?os = length ?urls" by (rule length_outcomes)
  have os_ne: "?os \<noteq> []" using len ne by (metis length_0_conv)
  note fb = failedBefore_props [of ?os]
  have le: "?n \<le> length ?urls" using fb len by simp
  from sendLoop_spec [OF loop]
  have t: "tried = take (Suc ?n) ?urls"
    and ok: "?n < length ?urls \<longrightarrow> (\<exists>data. ?os ! ?n = Ok data \<and> r0 = Inr (buildResults ?chunks ?enc qkdKey data))"
    and bad: "?n = length ?urls \<longrightarrow> r0 = Inl (attemptError (last ?urls) (last ?os))"
    using ne by (simp_all add: Let_def)
  have all: "\<forall>k<?n. \<not> isOk (?os ! k)" using fb by blast
  have okr: "?n < length ?urls \<longrightarrow>
      (\<exists>data. ?os ! ?n = Ok data \<and> r = Inr (Some (buildResults ?chunks ?enc qkdKey data)))"
    using ok r by auto
  have failr: "?n = length ?urls \<longrightarrow>
       tried = ?urls \<and>
       (\<exists>m. attemptError (last ?urls) (last ?os) = Some m \<and>
            r = Inl (failureMessage ?urls (Some m)) \<and>
            (\<exists>a. failureMessage ?urls (Some m) = a @ m) \<and>
            (\<forall>u \<in> set ?urls. \<exists>a b. failureMessage ?urls (Some m) = a @ u @ b))"
  proof
    assume n: "?n = length ?urls"
    have "length ?os - 1 < ?n" using n os_ne len by (cases ?os) simp_all
    then have "\<not> isOk (?os ! (length ?os - 1))" using all by blast
    then have "\<not> isOk (last ?os)" using os_ne by (simp add: last_conv_nth)
    then obtain m where m: "attemptError (last ?urls) (last ?os) = Some m"
      by (cases "last ?os") (simp_all add: attemptError_def isOk_def)
    have "r = Inl (failureMessage ?urls (Some m))" using bad n r m by simp
    moreover have "tried = ?urls" using t n by simp
    ultimately show "tried = ?urls \<and>
       (\<exists>m. attemptError (last ?urls) (last ?os) = Some m \<and>
            r = Inl (failureMessage ?urls (Some m)) \<and>
            (\<exists>a. failureMessage ?urls (Some m) = a @ m) \<and>
            (\<forall>u \<in> set ?urls. \<exists>a b. failureMessage ?urls (Some m) = a @ u @ b))"
      using m failureMessage_ends failureMessage_names by blast
  qed
  have iff: "(\<exists>msg. r = Inl msg) = (?n = length ?urls)"
  proof
    assume "\<exists>msg. r = Inl msg"
    then have "\<not> ?n < length ?urls" using okr by auto
    then show "?n = length ?urls" using le by simp
  next
    assume "?n = length ?urls"
    then show "\<exists>msg. r = Inl msg" using failr by blast
  qed
  show ?thesis unfolding Let_def using t all okr iff failr by blast
qed

theorem endpoint_failover_witness:
  "(let F = (\<lambda>(w::nat) (req::request).
               (if url req = ''http://localhost:5008/compare33_corrected''
                then Threw ''The operation was aborted.''
                else Ok \<lparr>corrected_messages = Some [Some \<lparr>corrected_message = Some ''11'', item_fidelity = Some 97\<rparr>],
                         fidelities_shor = None, fidelities_noisy = None, fidelities_ideal = None,
                         fidelity_graph = None\<rparr>, Suc w));
        CFG = \<lparr>baseURL = ''http://localhost:5008'', compareCorrected = ''/compare33_corrected'',
               fallbackURLs = [''http://127.0.0.1:5008'']\<rparr>;
        out = processSuperdenseCoding F CFG ''0110'' ''101'' 0.05 1024 0
    in ''0110'' \<noteq> [] \<and> ''101'' \<noteq> [] \<and>
       fst (snd out) = [''http://localhost:5008/compare33_corrected'',
                        ''http://127.0.0.1:5008/compare33_corrected''] \<and>
       (\<exists>res. fst out = Inr (Some res)))"
proof -
  define F where "F = (\<lambda>(w::nat) (req::request).
               (if url req = ''http://localhost:5008/compare33_corrected''
                then Threw ''The operation was aborted.''
                else Ok \<lparr>corrected_messages = Some [Some \<lparr>corrected_message = Some ''11'', item_fidelity = Some 97\<rparr>],
                         fidelities_shor = None, fidelities_noisy = None, fidelities_ideal = None,
                         fidelity_graph = None\<rparr>, Suc w))"
  define CFG where "CFG = \<lparr>baseURL = ''http://localhost:5008'', compareCorrected = ''/compare33_corrected'',
               fallbackURLs = [''http://127.0.0.1:5008'']\<rparr>"
  define enc where "enc = encryptedChunksOf (chunksOf ''0110'') ''101''"
  obtain r tried w' where run: "processSuperdenseCoding F CFG ''0110'' ''101'' 0.05 1024 0 = (r, tried, w')"
    by (metis prod_cases3)
  have h1: "''0110'' \<noteq> []" and h2: "''101'' \<noteq> []" by simp_all
  have urls: "urlsToTry CFG = [''http://localhost:5008/compare33_corrected'',
                        ''http://127.0.0.1:5008/compare33_corrected'']"
    by (simp add: urlsToTry_def CFG_def)
  have os: "outcomes F enc 0.05 1024 (urlsToTry CFG) 0 =
      [Threw ''The operation was aborted.'',
       Ok \<lparr>corrected_messages = Some [Some \<lparr>corrected_message = Some ''11'', item_fidelity = Some 97\<rparr>],
                         fidelities_shor = None, fidelities_noisy = None, fidelities_ideal = None,
                         fidelity_graph = None\<rparr>]"
    unfolding urls by (simp add: F_def)
  have n: "failedBefore (outcomes F enc 0.05 1024 (urlsToTry CFG) 0) = 1"
    unfolding os by (simp add: failedBefore_def isOk_def)
  note T = endpoint_failover [OF h1 h2 run, unfolded Let_def, folded enc_def, unfolded n]
  have t: "tried = take (Suc 1) (urlsToTry CFG)" using T by blast
  have "1 < length (urlsToTry CFG)" by (simp add: urls)
  then have "\<exists>res. r = Inr (Some res)" using T by blast
  then have "fst (snd (processSuperdenseCoding F CFG ''0110'' ''101'' 0.05 1024 0)) =
       [''http://localhost:5008/compare33_corrected'', ''http://127.0.0.1:5008/compare33_corrected''] \<and>
       (\<exists>res. fst (processSuperdenseCoding F CFG ''0110'' ''101'' 0.05 1024 0) = Inr (Some res))"
    using t run by (simp add: urls)
  then show ?thesis unfolding Let_def F_def CFG_def using h1 h2 by blast
qed

subsection \<open>Job stream\<close>

lemma findIndexFrom_ge: "0 \<le> i \<Longrightarrow> findIndexFrom P xs i = - 1 \<or> i \<le> findIndexFrom P xs i"
proof (induction xs arbitrary: i)
  case Nil
  then show ?case by simp
next
  case (Cons x xs)
  have "findIndexFrom P xs (i + 1) = - 1 \<or> i + 1 \<le> findIndexFrom P xs (i + 1)"
    using Cons.IH [of "i + 1"] Cons.prems by simp
  then show ?case by auto
qed

lemma findIndexFrom_none: "0 \<le> i \<Longrightarrow> (findIndexFrom P xs i = - 1) = (\<forall>x \<in> set xs. \<not> P x)"
proof (induction xs arbitrary: i)
  case Nil
  then show ?case by simp
next
  case (Cons x xs)
  then have "(findIndexFrom P xs (i + 1) = - 1) = (\<forall>x \<in> set xs. \<not> P x)" by simp
  then show ?case using Cons.prems by auto
qed

lemma upsert_from:
  "0 \<le> i \<Longrightarrow>
   (let k = findIndexFrom (\<lambda>l. job_id l = Some jid) prev i
    in if k > - 1 then prev[nat (k - i) := entry] else prev @ [entry]) = upsertRec prev jid entry"
proof (induction prev arbitrary: i)
  case Nil
  then show ?case by simp
next
  case (Cons l ls)
  show ?case
  proof (cases "job_id l = Some jid")
    case True
    then show ?thesis using Cons.prems by simp
  next
    case False
    let ?k = "findIndexFrom (\<lambda>l. job_id l = Some jid) ls (i + 1)"
    have ih: "(if ?k > - 1 then ls[nat (?k - (i + 1)) := entry] else ls @ [entry]) = upsertRec ls jid entry"
      using Cons.IH [of "i + 1"] Cons.prems by (simp add: Let_def)
    have ge: "?k = - 1 \<or> i + 1 \<le> ?k" using findIndexFrom_ge [of "i + 1"] Cons.prems by simp
    show ?thesis
    proof (cases "?k > - 1")
      case True
      then have "i + 1 \<le> ?k" using ge by auto
      then have "nat (?k - i) = Suc (nat (?k - (i + 1)))" by simp
      then show ?thesis using False True ih by (simp add: Let_def)
    next
      case F2: False
      then show ?thesis using False ih by (simp add: Let_def)
    qed
  qed
qed

lemma upsertLog_rec: "upsertLog prev jid entry = upsertRec prev jid entry"
  using upsert_from [of 0 jid prev entry]
  by (auto simp: upsertLog_def findIndex_def Let_def split: if_splits)

lemma jobIds_simps [simp]:
  "jobIds [] = []"
  "jobIds (l # ls) = (case job_id l of Some j \<Rightarrow> j # jobIds ls | None \<Rightarrow> jobIds ls)"
  "jobIds (xs @ ys) = jobIds xs @ jobIds ys"
  by (simp_all add: jobIds_def List.map_filter_def split: option.splits)

lemma jobIds_upsertRec:
  "job_id entry = Some jid \<Longrightarrow>
   jobIds (upsertRec prev jid entry) = (if jid \<in> set (jobIds prev) then jobIds prev else jobIds prev @ [jid])"
  by (induction prev) (auto split: option.splits)

lemma distinct_upsert:
  "job_id entry = Some jid \<Longrightarrow> distinct (jobIds prev) \<Longrightarrow> distinct (jobIds (upsertRec prev jid entry))"
  by (simp add: jobIds_upsertRec)

lemma filter_jid_notin:
  "jid \<notin> set (jobIds ls) \<Longrightarrow> filter (\<lambda>l. job_id l = Some jid) ls = []"
  by (induction ls) (auto split: option.splits)

lemma filter_upsert_same:
  "job_id entry = Some jid \<Longrightarrow> distinct (jobIds prev) \<Longrightarrow>
   filter (\<lambda>l. job_id l = Some jid) (upsertRec prev jid entry) = [entry]"
  by (induction prev) (auto simp: filter_jid_notin split: option.splits)

lemma filter_upsert_other:
  "job_id entry = Some jid \<Longrightarrow> j \<noteq> jid \<Longrightarrow>
   filter (\<lambda>l. job_id l = Some j) (upsertRec prev jid entry) = filter (\<lambda>l. job_id l = Some j) prev"
  by (induction prev) auto

lemma upsert_seen:
  "jid \<in> set (jobIds prev) \<Longrightarrow>
   \<exists>k < length prev. job_id (prev ! k) = Some jid \<and> (\<forall>i<k. job_id (prev ! i) \<noteq> Some jid) \<and>
      upsertRec prev jid entry = prev[k := entry]"
proof (induction prev)
  case Nil
  then show ?case by simp
next
  case (Cons l ls)
  show ?case
  proof (cases "job_id l = Some jid")
    case True
    then have "0 < length (l # ls) \<and> job_id ((l # ls) ! 0) = Some jid \<and>
       (\<forall>i<0. job_id ((l # ls) ! i) \<noteq> Some jid) \<and> upsertRec (l # ls) jid entry = (l # ls)[0 := entry]"
      by simp
    then show ?thesis by blast
  next
    case False
    then have "jid \<in> set (jobIds ls)" using Cons.prems by (auto split: option.splits)
    then obtain k where k: "k < length ls" "job_id (ls ! k) = Some jid"
      "\<forall>i<k. job_id (ls ! i) \<noteq> Some jid" "upsertRec ls jid entry = ls[k := entry]"
      using Cons.IH by blast
    have "\<forall>i<Suc k. job_id ((l # ls) ! i) \<noteq> Some jid"
      using k(3) False by (auto simp: nth_Cons')
    then have "Suc k < length (l # ls) \<and> job_id ((l # ls) ! Suc k) = Some jid \<and>
       (\<forall>i<Suc k. job_id ((l # ls) ! i) \<noteq> Some jid) \<and> upsertRec (l # ls) jid entry = (l # ls)[Suc k := entry]"
      using k False by simp
    then show ?thesis by blast
  qed
qed

lemma upsert_unseen:
  "jid \<notin> set (jobIds prev) \<Longrightarrow> upsertRec prev jid entry = prev @ [entry]"
  by (induction prev) (auto split: option.splits)

lemma newLog_job_id: "job_id (newLog jid c t stat msg) = Some jid"
  by (simp add: newLog_def)

lemma onmessage_distinct:
  "distinct (jobIds (progressLogs s)) \<Longrightarrow> distinct (jobIds (progressLogs (onmessage s e)))"
  by (cases e) (simp_all add: upsertLog_rec distinct_upsert newLog_job_id)

lemma deliver_distinct:
  "distinct (jobIds (progressLogs s)) \<Longrightarrow> distinct (jobIds (progressLogs (deliver s es)))"
  by (induction es arbitrary: s) (simp_all add: onmessage_distinct)

lemma deliver_closed: "\<not> esOpen s \<Longrightarrow> deliver s es = s"
  by (cases es) simp_all

lemma deliver_processed: "esOpen s \<Longrightarrow> deliver s es = foldl onmessage s (processed es)"
proof (induction es arbitrary: s)
  case Nil
  then show ?case by simp
next
  case (Cons e es)
  show ?case
  proof (cases "isTerminal e")
    case True
    then have "\<not> esOpen (onmessage s e)" by (cases e) (simp_all add: isTerminal_def)
    then show ?thesis using Cons.prems True by (simp add: deliver_closed)
  next
    case False
    then have "esOpen (onmessage s e)" using Cons.prems by (cases e) (simp_all add: isTerminal_def)
    then show ?thesis using Cons.IH Cons.prems False by simp
  qed
qed

lemma onmessage_filter:
  "distinct (jobIds (progressLogs s)) \<Longrightarrow>
   filter (\<lambda>l. job_id l = Some jid) (progressLogs (onmessage s e)) =
     (case e of
        Progress j c t stat msg \<Rightarrow>
          (if j = jid then [newLog j c t stat msg] else filter (\<lambda>l. job_id l = Some jid) (progressLogs s))
      | _ \<Rightarrow> filter (\<lambda>l. job_id l = Some jid) (progressLogs s))"
  by (cases e)
    (simp_all add: upsertLog_rec filter_upsert_same filter_upsert_other newLog_job_id)

lemma foldl_latest:
  "distinct (jobIds (progressLogs s)) \<Longrightarrow>
   filter (\<lambda>l. job_id l = Some jid) (progressLogs (foldl onmessage s es)) =
     (case latestLog jid es of
        None \<Rightarrow> filter (\<lambda>l. job_id l = Some jid) (progressLogs s)
      | Some l \<Rightarrow> [l])"
proof (induction es arbitrary: s)
  case Nil
  then show ?case by simp
next
  case (Cons e es)
  have d: "distinct (jobIds (progressLogs (onmessage s e)))"
    using Cons.prems by (rule onmessage_distinct)
  show ?case
    using Cons.IH [OF d] onmessage_filter [OF Cons.prems, of jid e]
    by (cases e) (simp_all split: option.splits)
qed

text \<open>
  C9. Job upsert invariant: after \<open>fetchDecodedJobs\<close>, whatever events the stream
  delivers, the progress log has at most one entry for a job id, and that entry is the
  one made from the last progress event of that job that reached the handler. A
  progress event for a job id already in the log replaces the first (hence the only)
  entry of that job in place; for a job id not in the log it appends an entry. Each
  progress event sets the progress to \<open>current_job / total_jobs * 100\<close>; a done event
  stores the result, sets the progress to 100 and closes the event source.
\<close>

theorem job_upsert_invariant:
  "(let final = deliver (onopen (fetchDecodedJobs s)) events
    in distinct (jobIds (progressLogs final)) \<and>
       (\<forall>jid. filter (\<lambda>l. job_id l = Some jid) (progressLogs final) =
               (case latestLog jid (processed events) of None \<Rightarrow> [] | Some l \<Rightarrow> [l]))) \<and>
   (jid \<in> set (jobIds (progressLogs st)) \<longrightarrow>
      (\<exists>k < length (progressLogs st).
         job_id (progressLogs st ! k) = Some jid \<and>
         (\<forall>i<k. job_id (progressLogs st ! i) \<noteq> Some jid) \<and>
         progressLogs (onmessage st (Progress jid c t stat msg)) =
           (progressLogs st)[k := newLog jid c t stat msg])) \<and>
   (jid \<notin> set (jobIds (progressLogs st)) \<longrightarrow>
      progressLogs (onmessage st (Progress jid c t stat msg)) =
        progressLogs st @ [newLog jid c t stat msg]) \<and>
   progress (onmessage st (Progress jid c t stat msg)) = percent c t \<and>
   (t \<noteq> 0 \<longrightarrow> progress (onmessage st (Progress jid c t stat msg)) =
                  Num (real_of_int c / real_of_int t * 100)) \<and>
   decodedResult (onmessage st (Done res)) = Some res \<and>
   progress (onmessage st (Done res)) = Num 100 \<and>
   \<not> esOpen (onmessage st (Done res))"
proof -
  let ?s0 = "onopen (fetchDecodedJobs s)"
  have logs0: "jobIds (progressLogs ?s0) = []" "filter (\<lambda>l. job_id l = Some j) (progressLogs ?s0) = []" for j
    by (simp_all add: onopen_def fetchDecodedJobs_def)
  have open0: "esOpen ?s0" by (simp add: onopen_def fetchDecodedJobs_def)
  have d0: "distinct (jobIds (progressLogs ?s0))" by (simp add: logs0)
  have a: "distinct (jobIds (progressLogs (deliver ?s0 events)))"
    using d0 by (rule deliver_distinct)
  have b: "filter (\<lambda>l. job_id l = Some j) (progressLogs (deliver ?s0 events)) =
               (case latestLog j (processed events) of None \<Rightarrow> [] | Some l \<Rightarrow> [l])" for j
    using foldl_latest [OF d0, of j "processed events"] deliver_processed [OF open0, of events]
    by (simp add: logs0 split: option.splits)
  have c: "jid \<in> set (jobIds (progressLogs st)) \<longrightarrow>
      (\<exists>k < length (progressLogs st).
         job_id (progressLogs st ! k) = Some jid \<and>
         (\<forall>i<k. job_id (progressLogs st ! i) \<noteq> Some jid) \<and>
         progressLogs (onmessage st (Progress jid c t stat msg)) =
           (progressLogs st)[k := newLog jid c t stat msg])"
    using upsert_seen [of jid "progressLogs st" "newLog jid c t stat msg"]
    by (simp add: upsertLog_rec)
  have d: "jid \<notin> set (jobIds (progressLogs st)) \<longrightarrow>
      progressLogs (onmessage st (Progress jid c t stat msg)) =
        progressLogs st @ [newLog jid c t stat msg]"
    by (simp add: upsertLog_rec upsert_unseen)
  have e: "progress (onmessage st (Progress jid c t stat msg)) = percent c t"
    "t \<noteq> 0 \<longrightarrow> progress (onmessage st (Progress jid c t stat msg)) =
                  Num (real_of_int c / real_of_int t * 100)"
    "decodedResult (onmessage st (Done res)) = Some res"
    "progress (onmessage st (Done res)) = Num 100"
    "\<not> esOpen (onmessage st (Done res))"
    by (simp_all add: percent_def)
  show ?thesis unfolding Let_def using a b c d e by blast
qed

theorem job_upsert_invariant_witness:
  "(let s = \<lparr>decodedResult = None, progressLogs = [], loading = False, error = None,
              progress = Num 0, esOpen = False\<rparr>;
        res = \<lparr>full_binary = ''01'', latitude = 12.5, longitude = 77.5, restricted_status = ''No''\<rparr>;
        final = deliver (onopen (fetchDecodedJobs s))
                  [Start 2,
                   Progress ''a'' 1 2 (Some ''progress'') (Some ''running''),
                   Progress ''a'' 2 2 (Some ''success'') (Some ''decoded''),
                   Done res]
    in jobIds (progressLogs final) = [''a''] \<and>
       filter (\<lambda>l. job_id l = Some ''a'') (progressLogs final) =
         [newLog ''a'' 2 2 (Some ''success'') (Some ''decoded'')] \<and>
       decodedResult final = Some res \<and> progress final = Num 100 \<and> \<not> esOpen final)"
proof -
  define s where "s = \<lparr>decodedResult = None, progressLogs = [], loading = False, error = None,
              progress = Num 0, esOpen = False\<rparr>"
  define res where "res = \<lparr>full_binary = ''01'', latitude = 12.5, longitude = 77.5, restricted_status = ''No''\<rparr>"
  define evs where "evs = [Start 2,
                   Progress ''a'' 1 2 (Some ''progress'') (Some ''running''),
                   Progress ''a'' 2 2 (Some ''success'') (Some ''decoded''),
                   Done res]"
  define final where "final = deliver (onopen (fetchDecodedJobs s)) evs"
  note T = job_upsert_invariant [of s evs, unfolded Let_def, folded final_def]
  have p: "processed evs = evs" by (simp add: evs_def isTerminal_def)
  have l: "latestLog ''a'' evs = Some (newLog ''a'' 2 2 (Some ''success'') (Some ''decoded''))"
    by (simp add: evs_def)
  have f: "filter (\<lambda>l. job_id l = Some ''a'') (progressLogs final) =
         [newLog ''a'' 2 2 (Some ''success'') (Some ''decoded'')]"
    using T p l by simp
  have rest: "jobIds (progressLogs final) = [''a''] \<and> decodedResult final = Some res \<and>
       progress final = Num 100 \<and> \<not> esOpen final"
    by (simp add: final_def evs_def s_def onopen_def fetchDecodedJobs_def upsertLog_rec newLog_job_id)
  show ?thesis
    unfolding Let_def using f rest unfolding final_def evs_def s_def res_def by blast
qed

end
